theory Spec2Isabelle
  imports Main "HOL-Library.AList" "HOL-Library.Char_ord" "HOL-Library.List_Lexorder"
    "HOL-Library.Sublist"
begin

section \<open>Text layout: splitTextIntoLines\<close>

text \<open>
  JavaScript strings are modelled as \<open>string\<close>, one \<open>char\<close> per code unit (code units
  above 255 are not represented). \<open>isWhiteSpace\<close> lists the code units below 256 that
  \<^verbatim>\<open>String.prototype.trim\<close> strips: TAB, LF, VT, FF, CR, SPACE and NBSP.
\<close>

definition isWhiteSpace :: "char \<Rightarrow> bool" where
  "isWhiteSpace c = (c \<in> set [CHR 0x09, CHR 0x0A, CHR 0x0B, CHR 0x0C, CHR 0x0D, CHR 0x20, CHR 0xA0])"

text \<open>\<^verbatim>\<open>!textLine.trim()\<close>: the trimmed line is the empty string.\<close>

definition trimIsEmpty :: "string \<Rightarrow> bool" where
  "trimIsEmpty s = list_all isWhiteSpace s"

text \<open>
  \<^verbatim>\<open>text.split(/\r?\n/)\<close>: the separator is a line feed, together with the carriage return
  right before it when there is one. The result is never empty.
\<close>

fun splitNewlines :: "string \<Rightarrow> string list" where
  "splitNewlines [] = [[]]"
| "splitNewlines (c # cs) =
     (if c = CHR 0x0D \<and> cs \<noteq> [] \<and> hd cs = CHR 0x0A then [] # splitNewlines (tl cs)
      else if c = CHR 0x0A then [] # splitNewlines cs
      else (case splitNewlines cs of
              [] \<Rightarrow> [[c]]
            | l # ls \<Rightarrow> (c # l) # ls))"

text \<open>\<^verbatim>\<open>textLine.split(' ')\<close>: consecutive spaces give empty words.\<close>

fun splitSpaces :: "string \<Rightarrow> string list" where
  "splitSpaces [] = [[]]"
| "splitSpaces (c # cs) =
     (if c = CHR 0x20 then [] # splitSpaces cs
      else (case splitSpaces cs of
              [] \<Rightarrow> [[c]]
            | l # ls \<Rightarrow> (c # l) # ls))"

text \<open>
  The inner loop \<^verbatim>\<open>for (const word of words)\<close> over the state \<open>(lines, currentLine)\<close>.
  \<open>ctx\<close> is \<^verbatim>\<open>s => ctx.measureText(s).width\<close>; the type of widths only needs a
  comparison. The \<^verbatim>\<open>break\<close> leaves the loop with the word already stored in
  \<open>currentLine\<close>.
\<close>

primrec wrapWords :: "(string \<Rightarrow> 'w::ord) \<Rightarrow> 'w \<Rightarrow> int \<Rightarrow> string list \<Rightarrow> string list \<Rightarrow> string
    \<Rightarrow> string list \<times> string" where
  "wrapWords ctx maxWidth maxLines [] lines currentLine = (lines, currentLine)"
| "wrapWords ctx maxWidth maxLines (word # words) lines currentLine =
     (let testLine = (if currentLine \<noteq> [] then currentLine @ '' '' @ word else word) in
      if maxWidth < ctx testLine \<and> currentLine \<noteq> [] then
        (let lines' = lines @ [currentLine] in
         if maxLines \<le> int (length lines') then (lines', word)
         else wrapWords ctx maxWidth maxLines words lines' word)
      else wrapWords ctx maxWidth maxLines words lines testLine)"

text \<open>The outer loop \<^verbatim>\<open>for (const textLine of textLines)\<close> over the state \<open>lines\<close>.\<close>

primrec splitLoop :: "(string \<Rightarrow> 'w::ord) \<Rightarrow> 'w \<Rightarrow> int \<Rightarrow> string list \<Rightarrow> string list \<Rightarrow> string list" where
  "splitLoop ctx maxWidth maxLines [] lines = lines"
| "splitLoop ctx maxWidth maxLines (textLine # textLines) lines =
     (if maxLines \<le> int (length lines) then lines
      else if trimIsEmpty textLine then splitLoop ctx maxWidth maxLines textLines (lines @ [''''])
      else
        (case wrapWords ctx maxWidth maxLines (splitSpaces textLine) lines '''' of
           (lines', currentLine) \<Rightarrow>
             splitLoop ctx maxWidth maxLines textLines
               (if currentLine \<noteq> [] \<and> int (length lines') < maxLines then lines' @ [currentLine]
                else lines')))"

definition splitTextIntoLines :: "string \<Rightarrow> (string \<Rightarrow> 'w::ord) \<Rightarrow> 'w \<Rightarrow> int \<Rightarrow> string list" where
  "splitTextIntoLines text ctx maxWidth maxLines = splitLoop ctx maxWidth maxLines (splitNewlines text) []"

section \<open>Data model of the note store\<close>

text \<open>
  Exceptions are values: \<open>TypeError\<close> is what the JavaScript engine throws on a call of
  something that is not a function, \<open>BackendError\<close> any rejection of the table client.
\<close>

datatype error = TypeError | BackendError

text \<open>
  One element of an array of \<^verbatim>\<open>memoryNotes\<close>, which is also the shape \<^verbatim>\<open>peelNote\<close> returns:
  \<^verbatim>\<open>{ id, text, timestamp }\<close>. A timestamp is a valid \<^verbatim>\<open>Date\<close>, in milliseconds.
\<close>

record stickyNote =
  note_id :: string
  note_text :: string
  note_timestamp :: int

text \<open>
  \<^verbatim>\<open>interface StickyNoteEntity\<close>. \<open>noteKey\<close> is optional; \<open>entity_timestamp\<close> is \<open>None\<close>
  when \<^verbatim>\<open>new Date(entity.timestamp).getTime()\<close> is NaN.
\<close>

record StickyNoteEntity =
  partitionKey :: string
  rowKey :: string
  noteKey :: "string option"
  entity_text :: string
  entity_timestamp :: "int option"

text \<open>
  A plain object literal \<^verbatim>\<open>{}\<close> used as a dictionary: its own properties are an
  association list, in insertion order. Reading \<^verbatim>\<open>obj[k]\<close> also finds what the object
  inherits from \<^verbatim>\<open>Object.prototype\<close>; \<open>object_prototype\<close> lists those names with the
  \<^verbatim>\<open>length\<close> of the inherited value (functions have one; \<^verbatim>\<open>__proto__\<close> yields
  \<^verbatim>\<open>Object.prototype\<close> itself, which has none). Every inherited value is truthy and
  has neither \<^verbatim>\<open>push\<close> nor \<^verbatim>\<open>slice\<close> nor \<^verbatim>\<open>handleRequest\<close>.
\<close>

definition object_prototype :: "(string \<times> nat option) list" where
  "object_prototype =
     [(''constructor'', Some 1), (''__defineGetter__'', Some 2), (''__defineSetter__'', Some 2),
      (''hasOwnProperty'', Some 1), (''__lookupGetter__'', Some 1), (''__lookupSetter__'', Some 1),
      (''isPrototypeOf'', Some 1), (''propertyIsEnumerable'', Some 1), (''toString'', Some 0),
      (''valueOf'', Some 0), (''__proto__'', None), (''toLocaleString'', Some 0)]"

datatype 'v property = Undefined | Own 'v | Inherited "nat option"

definition getProperty :: "(string \<times> 'v) list \<Rightarrow> string \<Rightarrow> 'v property" where
  "getProperty obj k =
     (case map_of obj k of
        Some v \<Rightarrow> Own v
      | None \<Rightarrow> (case map_of object_prototype k of
                   Some len \<Rightarrow> Inherited len
                 | None \<Rightarrow> Undefined))"

text \<open>
  The process-wide state the store operations share: \<^verbatim>\<open>currentUserId\<close>, \<^verbatim>\<open>memoryNotes\<close>
  (partition key, then logical key, then the array of notes) and the rows of the remote
  table \<^verbatim>\<open>StickyNotesData\<close>, in the order the service streams them.
\<close>

record state =
  currentUserId :: "string option"
  memoryNotes :: "(string \<times> (string \<times> stickyNote list) list) list"
  tableRows :: "StickyNoteEntity list"

text \<open>
  What one call observes of the world outside the process: the environment variable
  \<^verbatim>\<open>MCP_USER_ID\<close>, the clock (\<^verbatim>\<open>new Date()\<close>), the draws of \<^verbatim>\<open>randomUUID()\<close>, whether
  \<^verbatim>\<open>initializeAzureStorage()\<close> yields a client rather than \<^verbatim>\<open>null\<close>, and which calls
  of that client reject: \<^verbatim>\<open>upsertEntity\<close>, the iteration of \<^verbatim>\<open>listEntities\<close> (after
  having yielded that many entities, or at its end when it has fewer), and
  \<^verbatim>\<open>deleteEntity\<close> for a row key. \<open>serviceTime\<close> is the time the table service stamps on
  a row it writes during the call.
\<close>

record env =
  MCP_USER_ID :: "string option"
  now :: int
  randomUUID :: "nat \<Rightarrow> string"
  client :: bool
  upsertThrows :: bool
  listThrows :: "nat option"
  deleteThrows :: "string \<Rightarrow> bool"
  serviceTime :: int

section \<open>Tenant resolution\<close>

definition getOrCreateUserId :: "env \<Rightarrow> state \<Rightarrow> string \<times> state" where
  "getOrCreateUserId e s =
     (case currentUserId s of
        Some (c # cs) \<Rightarrow> (c # cs, s)
      | _ \<Rightarrow>
         (case MCP_USER_ID e of
            Some (c # cs) \<Rightarrow> (c # cs, s\<lparr>currentUserId := Some (c # cs)\<rparr>)
          | _ \<Rightarrow>
             (let generated = ''user-'' @ take 8 (randomUUID e 0)
              in (generated, s\<lparr>currentUserId := Some generated\<rparr>))))"

definition getUserPartitionKey :: "env \<Rightarrow> string \<Rightarrow> state \<Rightarrow> string \<times> state" where
  "getUserPartitionKey e userId s =
     (case getOrCreateUserId e s of
        (autoUserId, s') \<Rightarrow>
          (if userId \<noteq> [] \<or> autoUserId \<noteq> []
           then ''user-'' @ (if userId \<noteq> [] then userId else autoUserId)
           else ''user-anonymous'', s'))"

section \<open>The remote table\<close>

text \<open>
  The table service is not code of this repository. Its three calls are modelled from
  the requests the code sends and from what the service does with them.

  \<^item> The listing takes the filter \<^verbatim>\<open>PartitionKey eq pk\<close>, optionally with
    \<^verbatim>\<open>and (noteKey eq key or rowKey eq key)\<close>. The service calls the row key of an entity
    \<^verbatim>\<open>RowKey\<close>; the name \<^verbatim>\<open>rowKey\<close> of the filter is that of a custom property, which no
    entity of the table carries, so this clause selects nothing: the keyed listing yields
    the entities of the partition whose \<^verbatim>\<open>noteKey\<close> is the key.
  \<^item> A table is streamed by partition key, then by row key; \<open>tableRows\<close> holds the rows
    in the order of the stream, and a new row takes its place in that order.
  \<^item> An upsert is keyed by partition key and row key. The service stamps the row it
    writes with its own time: the \<^verbatim>\<open>timestamp\<close> read back from an entity is the
    \<^verbatim>\<open>Timestamp\<close> of the service, not the value the caller sent.
  \<^item> A delete is by partition key and row key.
\<close>

definition listEntities :: "string \<Rightarrow> string option \<Rightarrow> StickyNoteEntity list \<Rightarrow> StickyNoteEntity list" where
  "listEntities pk keyFilter rows =
     filter (\<lambda>r. partitionKey r = pk \<and>
                 (case keyFilter of
                    None \<Rightarrow> True
                  | Some k \<Rightarrow> noteKey r = Some k)) rows"

definition sameRow :: "StickyNoteEntity \<Rightarrow> StickyNoteEntity \<Rightarrow> bool" where
  "sameRow a b = (partitionKey a = partitionKey b \<and> rowKey a = rowKey b)"

definition rowPrecedes :: "StickyNoteEntity \<Rightarrow> StickyNoteEntity \<Rightarrow> bool" where
  "rowPrecedes a b =
     (partitionKey a < partitionKey b \<or> (partitionKey a = partitionKey b \<and> rowKey a < rowKey b))"

primrec placeRow :: "StickyNoteEntity \<Rightarrow> StickyNoteEntity list \<Rightarrow> StickyNoteEntity list" where
  "placeRow r [] = [r]"
| "placeRow r (x # xs) = (if rowPrecedes r x then r # x # xs else x # placeRow r xs)"

definition upsertEntity :: "int \<Rightarrow> StickyNoteEntity \<Rightarrow> StickyNoteEntity list \<Rightarrow> StickyNoteEntity list" where
  "upsertEntity written entity rows =
     (let row = entity\<lparr>entity_timestamp := Some written\<rparr> in
      if list_ex (sameRow entity) rows
      then map (\<lambda>r. if sameRow entity r then row else r) rows
      else placeRow row rows)"

definition deleteEntity :: "string \<Rightarrow> string \<Rightarrow> StickyNoteEntity list \<Rightarrow> StickyNoteEntity list" where
  "deleteEntity pk rk rows = filter (\<lambda>r. \<not> (partitionKey r = pk \<and> rowKey r = rk)) rows"

section \<open>The store operations\<close>

text \<open>
  \<^verbatim>\<open>saveNoteInMemory\<close>. The partition keys it is called with all start with \<open>user-\<close>,
  so the outer lookup \<^verbatim>\<open>memoryNotes[partitionKey]\<close> never meets an inherited name; the
  inner lookup \<^verbatim>\<open>memoryNotes[partitionKey][key]\<close> can: an inherited value is truthy, so
  no array is created, and the call of its \<^verbatim>\<open>push\<close> throws.
\<close>

definition saveNoteInMemory ::
    "string \<Rightarrow> string \<Rightarrow> string \<Rightarrow> int \<Rightarrow> string \<Rightarrow> state \<Rightarrow> (error + unit) \<times> state" where
  "saveNoteInMemory pk key text timestamp uuid s =
     (let mem = (case map_of (memoryNotes s) pk of
                   None \<Rightarrow> AList.update pk [] (memoryNotes s)
                 | Some _ \<Rightarrow> memoryNotes s);
          userNotes = (case map_of mem pk of None \<Rightarrow> [] | Some u \<Rightarrow> u);
          n = \<lparr>note_id = uuid, note_text = text, note_timestamp = timestamp\<rparr>
      in case getProperty userNotes key of
           Inherited _ \<Rightarrow> (Inl TypeError, s\<lparr>memoryNotes := mem\<rparr>)
         | Undefined \<Rightarrow>
             (Inr (), s\<lparr>memoryNotes := AList.update pk (AList.update key [n] userNotes) mem\<rparr>)
         | Own xs \<Rightarrow>
             (Inr (), s\<lparr>memoryNotes := AList.update pk (AList.update key (xs @ [n]) userNotes) mem\<rparr>))"

definition stickNote :: "env \<Rightarrow> string \<Rightarrow> string \<Rightarrow> state \<Rightarrow> (error + unit) \<times> state" where
  "stickNote e key text s =
     (let timestamp = now e in
      case getOrCreateUserId e s of (userId, s1) \<Rightarrow>
      case getUserPartitionKey e userId s1 of (pk, s2) \<Rightarrow>
        if client e then
          (if upsertThrows e then saveNoteInMemory pk key text timestamp (randomUUID e 2) s2
           else (Inr (), s2\<lparr>tableRows := upsertEntity (serviceTime e)
                   \<lparr>partitionKey = pk, rowKey = randomUUID e 1, noteKey = Some key,
                    entity_text = text, entity_timestamp = Some timestamp\<rparr> (tableRows s2)\<rparr>))
        else
          (case saveNoteInMemory pk key text timestamp (randomUUID e 1) s2 of
             (Inr u, s3) \<Rightarrow> (Inr u, s3)
           | (Inl err, s3) \<Rightarrow> saveNoteInMemory pk key text timestamp (randomUUID e 2) s3))"

text \<open>
  The comparator \<^verbatim>\<open>(a, b) => b.timestamp - a.timestamp\<close> under the stable
  \<^verbatim>\<open>Array.prototype.sort\<close>: newest first, notes of equal time in their former order.
\<close>

definition sortNewestFirst :: "stickyNote list \<Rightarrow> stickyNote list" where
  "sortNewestFirst xs = sort_key (\<lambda>n. - note_timestamp n) xs"

text \<open>
  \<^verbatim>\<open>getLatestNoteFromMemory\<close>. An inherited value is truthy, so \<^verbatim>\<open>|| []\<close> keeps it; the
  test \<^verbatim>\<open>userNotes.length === 0\<close> holds for it when its length is 0, and otherwise the
  call of its \<^verbatim>\<open>slice\<close> throws.
\<close>

definition getLatestNoteFromMemory :: "string \<Rightarrow> string \<Rightarrow> state \<Rightarrow> error + stickyNote option" where
  "getLatestNoteFromMemory pk key s =
     (case map_of (memoryNotes s) pk of
        None \<Rightarrow> Inr None
      | Some userNotes \<Rightarrow>
          (case getProperty userNotes key of
             Undefined \<Rightarrow> Inr None
           | Inherited len \<Rightarrow> (if len = Some 0 then Inr None else Inl TypeError)
           | Own xs \<Rightarrow>
               (case sortNewestFirst xs of
                  [] \<Rightarrow> Inr None
                | n # _ \<Rightarrow> Inr (Some n))))"

text \<open>
  The loop of \<^verbatim>\<open>peelNote\<close> over the streamed entities: the first one is taken, a later
  one replaces \<open>latest\<close> when \<^verbatim>\<open>isNaN(latestTs.getTime()) || thisTs.getTime() > latestTs.getTime()\<close>.
\<close>

definition replacesLatest :: "StickyNoteEntity \<Rightarrow> StickyNoteEntity \<Rightarrow> bool" where
  "replacesLatest latest entity =
     (case entity_timestamp latest of
        None \<Rightarrow> True
      | Some latestTs \<Rightarrow>
          (case entity_timestamp entity of
             None \<Rightarrow> False
           | Some thisTs \<Rightarrow> latestTs < thisTs))"

primrec scanLatest :: "StickyNoteEntity list \<Rightarrow> StickyNoteEntity option \<Rightarrow> StickyNoteEntity option" where
  "scanLatest [] latest = latest"
| "scanLatest (entity # entities) latest =
     scanLatest entities
       (case latest of
          None \<Rightarrow> Some entity
        | Some l \<Rightarrow> if replacesLatest l entity then Some entity else Some l)"

definition validTimestamp :: "env \<Rightarrow> int option \<Rightarrow> int" where
  "validTimestamp e ts = (case ts of None \<Rightarrow> now e | Some t \<Rightarrow> t)"

definition peelNote :: "env \<Rightarrow> string \<Rightarrow> state \<Rightarrow> (error + stickyNote option) \<times> state" where
  "peelNote e key s =
     (case getOrCreateUserId e s of (userId, s1) \<Rightarrow>
      case getUserPartitionKey e userId s1 of (pk, s2) \<Rightarrow>
        if client e \<and> listThrows e = None then
          (case scanLatest (listEntities pk (Some key) (tableRows s2)) None of
             None \<Rightarrow> (Inr None, s2)
           | Some latest \<Rightarrow>
               (Inr (Some \<lparr>note_id = rowKey latest, note_text = entity_text latest,
                           note_timestamp = validTimestamp e (entity_timestamp latest)\<rparr>), s2))
        else (getLatestNoteFromMemory pk key s2, s2))"

definition getGroupedFromMemory :: "string \<Rightarrow> state \<Rightarrow> (string \<times> stickyNote list) list" where
  "getGroupedFromMemory pk s =
     (let userNotes = (case map_of (memoryNotes s) pk of None \<Rightarrow> [] | Some u \<Rightarrow> u)
      in map (\<lambda>k. (k, sortNewestFirst (case map_of userNotes k of None \<Rightarrow> [] | Some xs \<Rightarrow> xs)))
             (sort (map fst userNotes)))"

text \<open>
  The loop of \<^verbatim>\<open>listNotesData\<close> that fills the local object \<^verbatim>\<open>groups\<close>. The group of an
  entity is \<^verbatim>\<open>entity.noteKey || entity.rowKey\<close>; \<^verbatim>\<open>groups[noteKey]\<close> is read like every
  property of a plain object, so an inherited name makes the call of \<^verbatim>\<open>push\<close> throw.
\<close>

definition groupKey :: "StickyNoteEntity \<Rightarrow> string" where
  "groupKey entity = (case noteKey entity of Some (c # cs) \<Rightarrow> c # cs | _ \<Rightarrow> rowKey entity)"

primrec groupEntities :: "env \<Rightarrow> StickyNoteEntity list \<Rightarrow> (string \<times> stickyNote list) list
    \<Rightarrow> error + (string \<times> stickyNote list) list" where
  "groupEntities e [] groups = Inr groups"
| "groupEntities e (entity # entities) groups =
     (let n = \<lparr>note_id = rowKey entity, note_text = entity_text entity,
               note_timestamp = validTimestamp e (entity_timestamp entity)\<rparr>
      in case getProperty groups (groupKey entity) of
           Inherited _ \<Rightarrow> Inl TypeError
         | Undefined \<Rightarrow> groupEntities e entities (AList.update (groupKey entity) [n] groups)
         | Own xs \<Rightarrow> groupEntities e entities (AList.update (groupKey entity) (xs @ [n]) groups))"

definition listNotesData :: "env \<Rightarrow> state \<Rightarrow> (string \<times> stickyNote list) list \<times> state" where
  "listNotesData e s =
     (case getOrCreateUserId e s of (userId, s1) \<Rightarrow>
      case getUserPartitionKey e userId s1 of (pk, s2) \<Rightarrow>
        if client e \<and> listThrows e = None then
          (case groupEntities e (listEntities pk None (tableRows s2)) [] of
             Inl err \<Rightarrow> (getGroupedFromMemory pk s2, s2)
           | Inr groups \<Rightarrow>
               (map (\<lambda>k. (k, sortNewestFirst (case map_of groups k of None \<Rightarrow> [] | Some xs \<Rightarrow> xs)))
                    (sort (map fst groups)), s2))
        else (getGroupedFromMemory pk s2, s2))"

definition listNoteKeys :: "env \<Rightarrow> state \<Rightarrow> string list \<times> state" where
  "listNoteKeys e s = (case listNotesData e s of (groups, s') \<Rightarrow> (sort (map fst groups), s'))"

text \<open>
  The two identical in-memory branches of \<^verbatim>\<open>removeNote\<close>:
  \<^verbatim>\<open>if (userNotes && userNotes[key]) { delete userNotes[key]; return true; } return false;\<close>.
  Deleting a name the object only inherits removes nothing.
\<close>

definition removeFromMemory :: "string \<Rightarrow> string \<Rightarrow> state \<Rightarrow> bool \<times> state" where
  "removeFromMemory pk key s =
     (case map_of (memoryNotes s) pk of
        None \<Rightarrow> (False, s)
      | Some userNotes \<Rightarrow>
          (case getProperty userNotes key of
             Undefined \<Rightarrow> (False, s)
           | Inherited _ \<Rightarrow> (True, s)
           | Own xs \<Rightarrow>
               (True, s\<lparr>memoryNotes := AList.update pk (AList.delete key userNotes) (memoryNotes s)\<rparr>)))"

text \<open>
  The loop of \<^verbatim>\<open>removeNote\<close> over the streamed entities; a rejected \<^verbatim>\<open>deleteEntity\<close> is
  logged and the loop goes on.
\<close>

primrec deleteEach :: "env \<Rightarrow> string \<Rightarrow> StickyNoteEntity list \<Rightarrow> StickyNoteEntity list \<Rightarrow> StickyNoteEntity list" where
  "deleteEach e pk [] rows = rows"
| "deleteEach e pk (entity # entities) rows =
     deleteEach e pk entities
       (if deleteThrows e (rowKey entity) then rows else deleteEntity pk (rowKey entity) rows)"

definition removeNote :: "env \<Rightarrow> string \<Rightarrow> state \<Rightarrow> bool \<times> state" where
  "removeNote e key s =
     (case getOrCreateUserId e s of (userId, s1) \<Rightarrow>
      case getUserPartitionKey e userId s1 of (pk, s2) \<Rightarrow>
        if client e then
          (let entities = listEntities pk (Some key) (tableRows s2) in
           case listThrows e of
             None \<Rightarrow> (entities \<noteq> [], s2\<lparr>tableRows := deleteEach e pk entities (tableRows s2)\<rparr>)
           | Some n \<Rightarrow>
               removeFromMemory pk key
                 (s2\<lparr>tableRows := deleteEach e pk (take n entities) (tableRows s2)\<rparr>))
        else removeFromMemory pk key s2)"

section \<open>The tool handlers\<close>

text \<open>
  What a tool call returns, by the branch that built it. Rendering the image is outside
  the store: its failures are caught inside the handler and only change the content of
  the successful answer.
\<close>

datatype CallToolResult = NoteAdded string string | FailedToStickNote error | BoardCleared nat

definition DEFAULT_NOTE_KEY :: string where
  "DEFAULT_NOTE_KEY = ''default''"

definition addNote :: "env \<Rightarrow> string \<Rightarrow> string option \<Rightarrow> state \<Rightarrow> CallToolResult \<times> state" where
  "addNote e text key s =
     (let noteKey = (case key of Some (c # cs) \<Rightarrow> c # cs | _ \<Rightarrow> DEFAULT_NOTE_KEY) in
      case stickNote e noteKey text s of
        (Inr u, s') \<Rightarrow> (NoteAdded noteKey text, s')
      | (Inl err, s') \<Rightarrow> (FailedToStickNote err, s'))"

text \<open>
  The assignment \<^verbatim>\<open>currentUserId = requestUserId\<close> of the HTTP handlers, made when a
  request names a user.
\<close>

definition assignUserId :: "string option \<Rightarrow> state \<Rightarrow> state" where
  "assignUserId requestUserId s =
     (case requestUserId of
        Some (c # cs) \<Rightarrow> s\<lparr>currentUserId := Some (c # cs)\<rparr>
      | _ \<Rightarrow> s)"

text \<open>
  The loop of the \<^verbatim>\<open>clearNotes\<close> handler; \<open>re key\<close> is the environment of the call
  \<^verbatim>\<open>removeNote(key)\<close>. The handler awaits every call, and \<^verbatim>\<open>removeNote\<close> reads the
  process-wide \<^verbatim>\<open>currentUserId\<close> anew when it starts: a request handled in between
  may have assigned it. \<open>between key\<close> is the user such a request names before
  \<^verbatim>\<open>removeNote(key)\<close> starts, \<open>None\<close> when there is no such request.
\<close>

primrec removeEach :: "(string \<Rightarrow> env) \<Rightarrow> (string \<Rightarrow> string option) \<Rightarrow> string list \<Rightarrow> nat \<Rightarrow> state
    \<Rightarrow> nat \<times> state" where
  "removeEach re between [] deletedCount s = (deletedCount, s)"
| "removeEach re between (key # keys) deletedCount s =
     (case removeNote (re key) key (assignUserId (between key) s) of
        (success, s') \<Rightarrow>
          removeEach re between keys (if success then deletedCount + 1 else deletedCount) s')"

definition clearNotes :: "env \<Rightarrow> (string \<Rightarrow> env) \<Rightarrow> (string \<Rightarrow> string option) \<Rightarrow> state
    \<Rightarrow> CallToolResult \<times> state" where
  "clearNotes e re between s =
     (case listNoteKeys e s of
        (keys, s1) \<Rightarrow>
          (case removeEach re between keys 0 s1 of
             (deletedCount, s2) \<Rightarrow> (BoardCleared deletedCount, s2)))"

section \<open>Notions used in the statements\<close>

text \<open>
  The partition of a tenant, the names a plain object inherits, and the part of
  \<^verbatim>\<open>memoryNotes\<close> one partition and one logical key select.
\<close>

definition userPartition :: "string \<Rightarrow> string" where
  "userPartition t = ''user-'' @ t"

definition inheritedName :: "string \<Rightarrow> bool" where
  "inheritedName k = (map_of object_prototype k \<noteq> None)"

definition partitionNotes :: "string \<Rightarrow> state \<Rightarrow> (string \<times> stickyNote list) list" where
  "partitionNotes pk s = (case map_of (memoryNotes s) pk of None \<Rightarrow> [] | Some u \<Rightarrow> u)"

definition notesUnder :: "string \<Rightarrow> string \<Rightarrow> state \<Rightarrow> stickyNote list" where
  "notesUnder pk key s = (case map_of (partitionNotes pk s) key of None \<Rightarrow> [] | Some xs \<Rightarrow> xs)"

text \<open>
  What the calls \<^verbatim>\<open>removeNote(key)\<close> of the \<^verbatim>\<open>clearNotes\<close> handler answer, one for each
  key in turn, each call starting in the state the one before it left.
\<close>

primrec removalAnswers :: "(string \<Rightarrow> env) \<Rightarrow> (string \<Rightarrow> string option) \<Rightarrow> string list \<Rightarrow> state
    \<Rightarrow> bool list" where
  "removalAnswers re between [] s = []"
| "removalAnswers re between (key # keys) s =
     (case removeNote (re key) key (assignUserId (between key) s) of
        (success, s') \<Rightarrow> success # removalAnswers re between keys s')"

text \<open>The logical key of a call of the tool \<^verbatim>\<open>addNote\<close>: \<^verbatim>\<open>key || DEFAULT_NOTE_KEY\<close>.\<close>

definition resolvedKey :: "string option \<Rightarrow> string" where
  "resolvedKey key = (case key of Some (c # cs) \<Rightarrow> c # cs | _ \<Rightarrow> DEFAULT_NOTE_KEY)"

text \<open>
  The invariant of the in-memory store: every array stored under a logical key of a
  partition holds at least one note.
\<close>

definition nonEmptyArrays :: "(string \<times> stickyNote list) list \<Rightarrow> bool" where
  "nonEmptyArrays obj = list_all (\<lambda>(k, xs). xs \<noteq> []) obj"

definition nonEmptyGroups :: "state \<Rightarrow> bool" where
  "nonEmptyGroups s = list_all (\<lambda>(pk, userNotes). nonEmptyArrays userNotes) (memoryNotes s)"

text \<open>
  The calls that reach the store, each with the environment it runs in. \<open>SetUserId\<close> is
  the assignment \<^verbatim>\<open>currentUserId = requestUserId\<close> of the HTTP handlers, made when the
  request names a user. A reachable state is what a sequence of calls leaves, started
  with no tenant, an empty \<^verbatim>\<open>memoryNotes\<close> and any rows in the remote table.
\<close>

datatype call =
    StickNote env string string
  | AddNote env string "string option"
  | PeelNote env string
  | ListNotesData env
  | ListNoteKeys env
  | RemoveNote env string
  | ClearNotes env "string \<Rightarrow> env" "string \<Rightarrow> string option"
  | SetUserId string

primrec exec :: "call \<Rightarrow> state \<Rightarrow> state" where
  "exec (StickNote e key text) s = snd (stickNote e key text s)"
| "exec (AddNote e text key) s = snd (addNote e text key s)"
| "exec (PeelNote e key) s = snd (peelNote e key s)"
| "exec (ListNotesData e) s = snd (listNotesData e s)"
| "exec (ListNoteKeys e) s = snd (listNoteKeys e s)"
| "exec (RemoveNote e key) s = snd (removeNote e key s)"
| "exec (ClearNotes e re between) s = snd (clearNotes e re between s)"
| "exec (SetUserId u) s = (if u \<noteq> [] then s\<lparr>currentUserId := Some u\<rparr> else s)"

definition initialState :: "StickyNoteEntity list \<Rightarrow> state" where
  "initialState rows = \<lparr>currentUserId = None, memoryNotes = [], tableRows = rows\<rparr>"

definition run :: "call list \<Rightarrow> state \<Rightarrow> state" where
  "run calls s = foldl (\<lambda>s c. exec c s) s calls"


text \<open>Environments for the concrete instances: the backend unreachable, and healthy.\<close>

definition offline :: "int \<Rightarrow> string \<Rightarrow> env" where
  "offline t u = \<lparr>MCP_USER_ID = None, now = t, randomUUID = (\<lambda>n. u), client = False,
     upsertThrows = False, listThrows = None, deleteThrows = (\<lambda>rk. False), serviceTime = t\<rparr>"

definition healthy :: "int \<Rightarrow> string \<Rightarrow> env" where
  "healthy t u = \<lparr>MCP_USER_ID = None, now = t, randomUUID = (\<lambda>n. u), client = True,
     upsertThrows = False, listThrows = None, deleteThrows = (\<lambda>rk. False), serviceTime = t\<rparr>"

text \<open>
  When a call is served by the in-memory store: a write when there is no client or
  \<^verbatim>\<open>upsertEntity\<close> rejects, a read when there is no client or the listing rejects.
\<close>

definition storesInMemory :: "env \<Rightarrow> bool" where
  "storesInMemory e = (\<not> client e \<or> upsertThrows e)"

definition readsFromMemory :: "env \<Rightarrow> bool" where
  "readsFromMemory e = (\<not> client e \<or> listThrows e \<noteq> None)"

text \<open>
  The note \<^verbatim>\<open>saveNoteInMemory\<close> pushes for a call of \<^verbatim>\<open>stickNote\<close>, and the store with
  that note appended to the array of its partition and key.
\<close>

definition memorised :: "env \<Rightarrow> string \<Rightarrow> stickyNote" where
  "memorised e text =
     \<lparr>note_id = randomUUID e (if client e then 2 else 1), note_text = text, note_timestamp = now e\<rparr>"

definition remember :: "string \<Rightarrow> string \<Rightarrow> stickyNote \<Rightarrow> state \<Rightarrow> state" where
  "remember pk key n s =
     s\<lparr>memoryNotes :=
         AList.update pk (AList.update key (notesUnder pk key s @ [n]) (partitionNotes pk s))
           (memoryNotes s)\<rparr>"

text \<open>Newest first: no note is older than a note after it.\<close>

definition newestFirst :: "stickyNote list \<Rightarrow> bool" where
  "newestFirst items = sorted_wrt (\<lambda>a b. note_timestamp b \<le> note_timestamp a) items"

text \<open>
  What a tenant can see of the two stores: the entry of its partition in
  \<^verbatim>\<open>memoryNotes\<close> and the rows of its partition in the table.
\<close>

definition tenantView :: "string \<Rightarrow> state \<Rightarrow> (string \<times> stickyNote list) list option \<times> StickyNoteEntity list" where
  "tenantView t s =
     (map_of (memoryNotes s) (userPartition t), listEntities (userPartition t) None (tableRows s))"

text \<open>
  The row the table holds after the upsert of \<^verbatim>\<open>stickNote\<close>, and the note the listing and
  \<^verbatim>\<open>peelNote\<close> make of an entity. \<open>reachesTable\<close>: the client is there and \<^verbatim>\<open>upsertEntity\<close> resolves;
  \<open>readsTable\<close>: the client is there and the listing runs to its end.
\<close>

definition stored :: "env \<Rightarrow> string \<Rightarrow> string \<Rightarrow> string \<Rightarrow> StickyNoteEntity" where
  "stored e pk key text =
     \<lparr>partitionKey = pk, rowKey = randomUUID e 1, noteKey = Some key,
      entity_text = text, entity_timestamp = Some (serviceTime e)\<rparr>"

definition entityNote :: "env \<Rightarrow> StickyNoteEntity \<Rightarrow> stickyNote" where
  "entityNote e r =
     \<lparr>note_id = rowKey r, note_text = entity_text r,
      note_timestamp = validTimestamp e (entity_timestamp r)\<rparr>"

definition reachesTable :: "env \<Rightarrow> bool" where
  "reachesTable e = (client e \<and> \<not> upsertThrows e)"

definition readsTable :: "env \<Rightarrow> bool" where
  "readsTable e = (client e \<and> listThrows e = None)"

text \<open>A fresh process in which the tenant is already fixed, for the concrete instances.\<close>

definition session :: "string \<Rightarrow> state" where
  "session t = \<lparr>currentUserId = Some t, memoryNotes = [], tableRows = []\<rparr>"

text \<open>
  The selection rule of \<^verbatim>\<open>getLatest\<close> in the words of the specification, for a scan \<open>xs\<close>
  and a reading \<open>createdAt\<close> of the timestamp: a record that none exceeds, and among
  several such records either the first or the last of the scan.
\<close>

definition firstNewest :: "('a \<Rightarrow> int) \<Rightarrow> 'a list \<Rightarrow> 'a option" where
  "firstNewest createdAt xs = List.find (\<lambda>x. \<forall>y \<in> set xs. createdAt y \<le> createdAt x) xs"

definition lastNewest :: "('a \<Rightarrow> int) \<Rightarrow> 'a list \<Rightarrow> 'a option" where
  "lastNewest createdAt xs = List.find (\<lambda>x. \<forall>y \<in> set xs. createdAt y \<le> createdAt x) (rev xs)"

text \<open>A record of a scan that is at least as new as all, and newer than all before it.\<close>

definition leadsScan :: "('a \<Rightarrow> int) \<Rightarrow> 'a list \<Rightarrow> 'a \<Rightarrow> bool" where
  "leadsScan createdAt xs r =
     (\<exists>before after. xs = before @ r # after
        \<and> (\<forall>x \<in> set before. createdAt x < createdAt r)
        \<and> (\<forall>x \<in> set after. createdAt x \<le> createdAt r))"

section \<open>The session router\<close>

text \<open>
  The process state of the HTTP server: the store's state, the session table
  \<^verbatim>\<open>transports\<close> (a plain object from session id to transport) and \<^verbatim>\<open>process.env.LOG_LEVEL\<close>.
  A transport is named by the session it serves.
\<close>

datatype transport = Transport string

record httpState = state +
  transports :: "(string \<times> transport) list"
  LOG_LEVEL :: "string option"

text \<open>
  What \<^verbatim>\<open>mcpPostHandler\<close> reads of a request: the header \<^verbatim>\<open>mcp-session-id\<close>,
  \<^verbatim>\<open>req.body.method\<close> when it is a string, \<^verbatim>\<open>String(req.body.params?.level || '').toLowerCase()\<close>,
  the verdict of \<^verbatim>\<open>isInitializeRequest(req.body)\<close> and of \<^verbatim>\<open>getUserIdFromRequest(req)\<close>.
\<close>

record request =
  sessionIdHeader :: "string option"
  bodyMethod :: "string option"
  requestedLevel :: string
  initializeRequest :: bool
  requestUserId :: "string option"

text \<open>
  What the handler answers: a JSON body written by the handler itself, with its HTTP
  status and, for an error, its JSON-RPC code; or whatever \<^verbatim>\<open>transport.handleRequest\<close>
  writes, for an existing session and for a new one.
\<close>

datatype response =
    Json nat "int option"
  | Dispatched transport
  | Initializing transport

definition validLevels :: "string list" where
  "validLevels = [''error'', ''warn'', ''info'', ''debug'', ''trace'', ''off'']"

text \<open>
  \<^verbatim>\<open>mcpPostHandler\<close>. \<open>generated\<close> is the session id the new transport draws when it handles
  an initialization request, \<open>None\<close> when it initializes no session. The lookup
  \<^verbatim>\<open>transports[sessionId]\<close> is a property read of a plain object: an inherited value is
  truthy, is taken for the transport, and the call of its \<^verbatim>\<open>handleRequest\<close> throws into
  the handler's \<^verbatim>\<open>catch\<close>, which answers 500.
\<close>

definition mcpPostHandler :: "string option \<Rightarrow> request \<Rightarrow> httpState \<Rightarrow> response \<times> httpState" where
  "mcpPostHandler generated req h =
     (if bodyMethod req = Some ''logging/setLevel'' then
        (if requestedLevel req = [] \<or> requestedLevel req \<notin> set validLevels
         then (Json 200 (Some (- 32602)), h)
         else (Json 200 None, h\<lparr>LOG_LEVEL := Some (requestedLevel req)\<rparr>))
      else if bodyMethod req = Some ''logging/getLevel'' then (Json 200 None, h)
      else
        (let h1 = (case requestUserId req of
                     Some (c # cs) \<Rightarrow> h\<lparr>currentUserId := Some (c # cs)\<rparr>
                   | _ \<Rightarrow> h);
             registered = (case sessionIdHeader req of
                             Some (c # cs) \<Rightarrow> getProperty (transports h1) (c # cs)
                           | _ \<Rightarrow> Undefined);
             missing = (case sessionIdHeader req of Some (c # cs) \<Rightarrow> False | _ \<Rightarrow> True)
         in case registered of
              Own t \<Rightarrow> (Dispatched t, h1)
            | Inherited len \<Rightarrow> (Json 500 (Some (- 32603)), h1)
            | Undefined \<Rightarrow>
                (if missing \<and> initializeRequest req then
                   (case generated of
                      None \<Rightarrow> (Initializing (Transport []), h1)
                    | Some sid \<Rightarrow>
                        (Initializing (Transport sid),
                         h1\<lparr>transports := AList.update sid (Transport sid) (transports h1)\<rparr>))
                 else (Json 400 (Some (- 32000)), h1))))"

text \<open>A server with no session and no note, for the concrete instances.\<close>

definition idleServer :: httpState where
  "idleServer = \<lparr>currentUserId = None, memoryNotes = [], tableRows = [],
                  transports = [], LOG_LEVEL = None\<rparr>"

section \<open>Properties of the text layout\<close>

lemma wrapWords_length:
  "int (length lines) < maxLines \<Longrightarrow>
   int (length (fst (wrapWords ctx maxWidth maxLines words lines currentLine))) \<le> maxLines"
proof (induction words arbitrary: lines currentLine)
  case Nil
  then show ?case by simp
next
  case (Cons word words)
  show ?case
  proof (cases "currentLine = []")
    case True
    with Cons.IH [OF Cons.prems, of word] show ?thesis
      by (simp add: Let_def)
  next
    case ne: False
    show ?thesis
    proof (cases "maxWidth < ctx (currentLine @ '' '' @ word)")
      case wide: True
      show ?thesis
      proof (cases "maxLines \<le> int (length (lines @ [currentLine]))")
        case True
        with ne wide Cons.prems show ?thesis
          by (simp add: Let_def)
      next
        case False
        then have "int (length (lines @ [currentLine])) < maxLines" by simp
        from Cons.IH [OF this, of word] ne wide False show ?thesis
          by (simp add: Let_def)
      qed
    next
      case False
      with Cons.IH [OF Cons.prems, of "currentLine @ '' '' @ word"] ne show ?thesis
        by (simp add: Let_def)
    qed
  qed
qed

lemma splitLoop_length:
  "int (length lines) \<le> maxLines \<Longrightarrow>
   int (length (splitLoop ctx maxWidth maxLines textLines lines)) \<le> maxLines"
proof (induction textLines arbitrary: lines)
  case Nil
  then show ?case by simp
next
  case (Cons textLine textLines)
  show ?case
  proof (cases "maxLines \<le> int (length lines)")
    case True
    with Cons.prems show ?thesis by simp
  next
    case room: False
    show ?thesis
    proof (cases "trimIsEmpty textLine")
      case True
      from room have "int (length (lines @ [''''])) \<le> maxLines" by simp
      from Cons.IH [OF this] room True show ?thesis by simp
    next
      case False
      obtain lines' currentLine where
        w: "wrapWords ctx maxWidth maxLines (splitSpaces textLine) lines '''' = (lines', currentLine)"
        by (cases "wrapWords ctx maxWidth maxLines (splitSpaces textLine) lines ''''")
      from room have "int (length lines) < maxLines" by simp
      from wrapWords_length [OF this, of ctx maxWidth "splitSpaces textLine" "''''"] w
      have le: "int (length lines') \<le> maxLines" by simp
      then have "int (length (if currentLine \<noteq> [] \<and> int (length lines') < maxLines
                              then lines' @ [currentLine] else lines')) \<le> maxLines"
        by simp
      from Cons.IH [OF this] room False w show ?thesis by simp
    qed
  qed
qed

text \<open>
  Claim C10. For every text, measuring context, maximal width and line budget
  \<open>maxLines \<ge> 0\<close> (an integer, as \<^verbatim>\<open>calculateMaxLines\<close> computes it with
  \<^verbatim>\<open>Math.floor\<close>), \<open>splitTextIntoLines\<close> returns at most \<open>maxLines\<close> lines, and with
  \<open>maxLines = 0\<close> it returns no line at all.
\<close>

theorem splitTextIntoLines_at_most_maxLines:
  "0 \<le> maxLines \<Longrightarrow>
     int (length (splitTextIntoLines text ctx maxWidth maxLines)) \<le> maxLines
     \<and> splitTextIntoLines text ctx maxWidth 0 = []"
proof -
  assume nonneg: "0 \<le> maxLines"
  have "int (length (splitLoop ctx maxWidth maxLines (splitNewlines text) [])) \<le> maxLines"
    using nonneg by (intro splitLoop_length) simp
  moreover have "int (length (splitLoop ctx maxWidth 0 (splitNewlines text) [])) \<le> 0"
    by (intro splitLoop_length) simp
  ultimately show ?thesis by (simp add: splitTextIntoLines_def)
qed

theorem splitTextIntoLines_at_most_maxLines_witness:
  "(0::int) \<le> 2
   \<and> splitTextIntoLines ''ab cd ef gh ij'' (\<lambda>s. length s) (5::nat) 2 = [''ab cd'', ''ef gh'']
   \<and> int (length (splitTextIntoLines ''ab cd ef gh ij'' (\<lambda>s. length s) (5::nat) 2)) \<le> 2
   \<and> splitTextIntoLines ''ab cd ef gh ij'' (\<lambda>s. length s) (5::nat) 0 = []"
proof -
  have h: "(0::int) \<le> 2" by simp
  have v: "splitTextIntoLines ''ab cd ef gh ij'' (\<lambda>s. length s) (5::nat) 2 = [''ab cd'', ''ef gh'']"
    by (simp add: splitTextIntoLines_def trimIsEmpty_def isWhiteSpace_def Let_def)
  from splitTextIntoLines_at_most_maxLines [OF h, of "''ab cd ef gh ij''" "\<lambda>s. length s" "5::nat"] h v
  show ?thesis by simp
qed

section \<open>Tenant resolution and the shape of each operation\<close>

lemma getOrCreateUserId_fixed:
  "currentUserId s = Some t \<Longrightarrow> t \<noteq> [] \<Longrightarrow> getOrCreateUserId e s = (t, s)"
  by (cases t) (simp_all add: getOrCreateUserId_def)

lemma getUserPartitionKey_fixed:
  "currentUserId s = Some t \<Longrightarrow> t \<noteq> [] \<Longrightarrow> getUserPartitionKey e t s = (userPartition t, s)"
  by (simp add: getUserPartitionKey_def getOrCreateUserId_fixed userPartition_def)

lemma getOrCreateUserId_binds:
  "getOrCreateUserId e s = (u, s') \<Longrightarrow> u \<noteq> [] \<and> s' = s\<lparr>currentUserId := Some u\<rparr>"
  by (auto simp: getOrCreateUserId_def Let_def split: option.splits list.splits)

lemma getUserPartitionKey_binds:
  "getUserPartitionKey e u s = (pk, s') \<Longrightarrow> \<exists>v. s' = s\<lparr>currentUserId := Some v\<rparr>"
  by (auto simp: getUserPartitionKey_def split: prod.splits dest: getOrCreateUserId_binds)

lemma resolve_memory:
  assumes "getOrCreateUserId e s = (u, s1)" "getUserPartitionKey e u s1 = (pk, s2)"
  shows "memoryNotes s2 = memoryNotes s \<and> tableRows s2 = tableRows s"
  using getOrCreateUserId_binds [OF assms(1)] getUserPartitionKey_binds [OF assms(2)] by auto

section \<open>The invariant of the in-memory store\<close>

lemma nonEmptyArrays_update:
  "nonEmptyArrays obj \<Longrightarrow> xs \<noteq> [] \<Longrightarrow> nonEmptyArrays (AList.update k xs obj)"
  by (induction obj) (auto simp: nonEmptyArrays_def)

lemma nonEmptyArrays_delete:
  "nonEmptyArrays obj \<Longrightarrow> nonEmptyArrays (AList.delete k obj)"
  by (induction obj) (auto simp: nonEmptyArrays_def)

lemma nonEmptyArrays_lookup:
  "nonEmptyArrays obj \<Longrightarrow> map_of obj k = Some xs \<Longrightarrow> xs \<noteq> []"
  by (induction obj) (auto simp: nonEmptyArrays_def split: if_splits)

lemma nonEmptyGroups_update:
  "list_all (\<lambda>(pk, userNotes). nonEmptyArrays userNotes) mem \<Longrightarrow> nonEmptyArrays u \<Longrightarrow>
   list_all (\<lambda>(pk, userNotes). nonEmptyArrays userNotes) (AList.update pk u mem)"
  by (induction mem) auto

lemma nonEmptyGroups_lookup:
  "list_all (\<lambda>(pk, userNotes). nonEmptyArrays userNotes) mem \<Longrightarrow> map_of mem pk = Some u \<Longrightarrow>
   nonEmptyArrays u"
  by (induction mem) (auto split: if_splits)

lemma nonEmptyArrays_Nil: "nonEmptyArrays []"
  by (simp add: nonEmptyArrays_def)

lemma saveNoteInMemory_nonEmptyGroups:
  assumes "nonEmptyGroups s"
  shows "nonEmptyGroups (snd (saveNoteInMemory pk key text ts uuid s))"
proof -
  define mem where "mem = (case map_of (memoryNotes s) pk of
                   None \<Rightarrow> AList.update pk [] (memoryNotes s)
                 | Some _ \<Rightarrow> memoryNotes s)"
  define userNotes where "userNotes = (case map_of mem pk of None \<Rightarrow> [] | Some u \<Rightarrow> u)"
  have mem: "list_all (\<lambda>(pk, userNotes). nonEmptyArrays userNotes) mem"
    using assms unfolding mem_def nonEmptyGroups_def
    by (auto split: option.splits intro: nonEmptyGroups_update nonEmptyArrays_Nil)
  have u: "nonEmptyArrays userNotes"
    unfolding userNotes_def using mem
    by (auto split: option.splits intro: nonEmptyArrays_Nil dest: nonEmptyGroups_lookup)
  show ?thesis
  proof (cases "getProperty userNotes key")
    case Undefined
    then show ?thesis
      using mem u unfolding saveNoteInMemory_def Let_def mem_def [symmetric] userNotes_def [symmetric]
      by (simp add: nonEmptyGroups_def nonEmptyGroups_update nonEmptyArrays_update)
  next
    case (Own xs)
    then show ?thesis
      using mem u unfolding saveNoteInMemory_def Let_def mem_def [symmetric] userNotes_def [symmetric]
      by (simp add: nonEmptyGroups_def nonEmptyGroups_update nonEmptyArrays_update)
  next
    case (Inherited len)
    then show ?thesis
      using mem unfolding saveNoteInMemory_def Let_def mem_def [symmetric] userNotes_def [symmetric]
      by (simp add: nonEmptyGroups_def)
  qed
qed

lemma nonEmptyGroups_cong:
  "memoryNotes s' = memoryNotes s \<Longrightarrow> nonEmptyGroups s' = nonEmptyGroups s"
  by (simp add: nonEmptyGroups_def)

lemma stickNote_resolved:
  assumes "getOrCreateUserId e s = (u, s1)" "getUserPartitionKey e u s1 = (pk, s2)"
  shows "stickNote e key text s =
     (if client e then
        (if upsertThrows e then saveNoteInMemory pk key text (now e) (randomUUID e 2) s2
         else (Inr (), s2\<lparr>tableRows := upsertEntity (serviceTime e)
                 \<lparr>partitionKey = pk, rowKey = randomUUID e 1, noteKey = Some key,
                  entity_text = text, entity_timestamp = Some (now e)\<rparr> (tableRows s2)\<rparr>))
      else
        (case saveNoteInMemory pk key text (now e) (randomUUID e 1) s2 of
           (Inr u, s3) \<Rightarrow> (Inr u, s3)
         | (Inl err, s3) \<Rightarrow> saveNoteInMemory pk key text (now e) (randomUUID e 2) s3))"
  using assms by (simp add: stickNote_def Let_def)

lemma stickNote_nonEmptyGroups:
  assumes "nonEmptyGroups s"
  shows "nonEmptyGroups (snd (stickNote e key text s))"
proof -
  obtain u s1 where g: "getOrCreateUserId e s = (u, s1)" by (cases "getOrCreateUserId e s")
  obtain pk s2 where p: "getUserPartitionKey e u s1 = (pk, s2)" by (cases "getUserPartitionKey e u s1")
  from resolve_memory [OF g p] assms have inv2: "nonEmptyGroups s2"
    by (simp add: nonEmptyGroups_def)
  show ?thesis
  proof (cases "client e")
    case True
    with inv2 show ?thesis
      by (simp add: stickNote_resolved [OF g p] saveNoteInMemory_nonEmptyGroups)
         (simp add: nonEmptyGroups_def)
  next
    case False
    obtain r s3 where first: "saveNoteInMemory pk key text (now e) (randomUUID e 1) s2 = (r, s3)"
      by (cases "saveNoteInMemory pk key text (now e) (randomUUID e 1) s2")
    from saveNoteInMemory_nonEmptyGroups [OF inv2, of pk key "text" "now e" "randomUUID e 1"] first
    have inv3: "nonEmptyGroups s3" by simp
    show ?thesis
    proof (cases r)
      case (Inl err)
      with False first saveNoteInMemory_nonEmptyGroups [OF inv3] show ?thesis
        by (simp add: stickNote_resolved [OF g p])
    next
      case (Inr v)
      with False first inv3 show ?thesis
        by (simp add: stickNote_resolved [OF g p])
    qed
  qed
qed


lemma removeFromMemory_nonEmptyGroups:
  assumes "nonEmptyGroups s"
  shows "nonEmptyGroups (snd (removeFromMemory pk key s))"
proof (cases "map_of (memoryNotes s) pk")
  case None
  with assms show ?thesis by (simp add: removeFromMemory_def)
next
  case (Some userNotes)
  with assms have u: "nonEmptyArrays userNotes"
    by (auto simp: nonEmptyGroups_def dest: nonEmptyGroups_lookup)
  show ?thesis
    using assms Some u
    by (cases "getProperty userNotes key")
       (simp_all add: removeFromMemory_def nonEmptyGroups_def nonEmptyGroups_update
          nonEmptyArrays_delete)
qed

lemma removeNote_resolved:
  assumes "getOrCreateUserId e s = (u, s1)" "getUserPartitionKey e u s1 = (pk, s2)"
  shows "removeNote e key s =
     (if client e then
        (let entities = listEntities pk (Some key) (tableRows s2) in
         case listThrows e of
           None \<Rightarrow> (entities \<noteq> [], s2\<lparr>tableRows := deleteEach e pk entities (tableRows s2)\<rparr>)
         | Some n \<Rightarrow>
             removeFromMemory pk key
               (s2\<lparr>tableRows := deleteEach e pk (take n entities) (tableRows s2)\<rparr>))
      else removeFromMemory pk key s2)"
  using assms by (simp add: removeNote_def)

lemma removeNote_nonEmptyGroups:
  assumes "nonEmptyGroups s"
  shows "nonEmptyGroups (snd (removeNote e key s))"
proof -
  obtain u s1 where g: "getOrCreateUserId e s = (u, s1)" by (cases "getOrCreateUserId e s")
  obtain pk s2 where p: "getUserPartitionKey e u s1 = (pk, s2)" by (cases "getUserPartitionKey e u s1")
  from resolve_memory [OF g p] assms have inv2: "nonEmptyGroups s2"
    by (simp add: nonEmptyGroups_def)
  have rows: "nonEmptyGroups (s2\<lparr>tableRows := r\<rparr>)" for r
    using inv2 by (simp add: nonEmptyGroups_def)
  show ?thesis
    using inv2 rows
    by (simp add: removeNote_resolved [OF g p] Let_def removeFromMemory_nonEmptyGroups
          split: option.splits)
qed

lemma assignUserId_memory [simp]:
  "memoryNotes (assignUserId u s) = memoryNotes s" "tableRows (assignUserId u s) = tableRows s"
  by (simp_all add: assignUserId_def split: option.splits list.splits)

lemma assignUserId_None [simp]: "assignUserId None s = s"
  by (simp add: assignUserId_def)

lemma removeEach_nonEmptyGroups:
  "nonEmptyGroups s \<Longrightarrow> nonEmptyGroups (snd (removeEach re between keys n s))"
proof (induction keys arbitrary: n s)
  case Nil
  then show ?case by simp
next
  case (Cons key keys)
  define s0 where "s0 = assignUserId (between key) s"
  from Cons.prems have inv0: "nonEmptyGroups s0" by (simp add: s0_def nonEmptyGroups_def)
  obtain b s' where r: "removeNote (re key) key s0 = (b, s')" by (cases "removeNote (re key) key s0")
  from removeNote_nonEmptyGroups [OF inv0, of "re key" key] r have "nonEmptyGroups s'" by simp
  from Cons.IH [OF this] r show ?case by (simp add: s0_def)
qed

lemma peelNote_state:
  "\<exists>v. snd (peelNote e key s) = s\<lparr>currentUserId := Some v\<rparr>"
proof -
  obtain u s1 where g: "getOrCreateUserId e s = (u, s1)" by (cases "getOrCreateUserId e s")
  obtain pk s2 where p: "getUserPartitionKey e u s1 = (pk, s2)" by (cases "getUserPartitionKey e u s1")
  from getOrCreateUserId_binds [OF g] getUserPartitionKey_binds [OF p]
  obtain v where "s2 = s\<lparr>currentUserId := Some v\<rparr>" by auto
  then show ?thesis
    by (auto simp: peelNote_def g p split: option.splits)
qed

lemma listNotesData_state:
  "\<exists>v. snd (listNotesData e s) = s\<lparr>currentUserId := Some v\<rparr>"
proof -
  obtain u s1 where g: "getOrCreateUserId e s = (u, s1)" by (cases "getOrCreateUserId e s")
  obtain pk s2 where p: "getUserPartitionKey e u s1 = (pk, s2)" by (cases "getUserPartitionKey e u s1")
  from getOrCreateUserId_binds [OF g] getUserPartitionKey_binds [OF p]
  obtain v where "s2 = s\<lparr>currentUserId := Some v\<rparr>" by auto
  then show ?thesis
    by (auto simp: listNotesData_def g p split: sum.splits)
qed

lemma listNoteKeys_state:
  "snd (listNoteKeys e s) = snd (listNotesData e s)"
  by (simp add: listNoteKeys_def split: prod.splits)

lemma clearNotes_nonEmptyGroups:
  assumes "nonEmptyGroups s"
  shows "nonEmptyGroups (snd (clearNotes e re between s))"
proof -
  obtain keys s1 where k: "listNoteKeys e s = (keys, s1)" by (cases "listNoteKeys e s")
  from listNotesData_state [of e s] k listNoteKeys_state [of e s] assms
  have "nonEmptyGroups s1" by (auto simp: nonEmptyGroups_def)
  from removeEach_nonEmptyGroups [OF this, of re between keys 0] k show ?thesis
    by (cases "removeEach re between keys 0 s1") (simp add: clearNotes_def)
qed

lemma addNote_state: "snd (addNote e text key s) = snd (stickNote e (case key of Some (c # cs) \<Rightarrow> c # cs | _ \<Rightarrow> DEFAULT_NOTE_KEY) text s)"
  by (simp add: addNote_def Let_def split: prod.splits sum.splits)

lemma exec_nonEmptyGroups:
  assumes "nonEmptyGroups s"
  shows "nonEmptyGroups (exec c s)"
proof (cases c)
  case (StickNote e key body)
  with assms show ?thesis by (simp add: stickNote_nonEmptyGroups)
next
  case (AddNote e body key)
  with assms show ?thesis by (simp add: addNote_state stickNote_nonEmptyGroups)
next
  case (PeelNote e key)
  with assms peelNote_state [of e key s] show ?thesis by (auto simp: nonEmptyGroups_def)
next
  case (ListNotesData e)
  with assms listNotesData_state [of e s] show ?thesis by (auto simp: nonEmptyGroups_def)
next
  case (ListNoteKeys e)
  with assms listNotesData_state [of e s] show ?thesis
    by (auto simp: nonEmptyGroups_def listNoteKeys_state)
next
  case (RemoveNote e key)
  with assms show ?thesis by (simp add: removeNote_nonEmptyGroups)
next
  case (ClearNotes e re between)
  with assms show ?thesis by (simp add: clearNotes_nonEmptyGroups)
next
  case (SetUserId u)
  with assms show ?thesis by (simp add: nonEmptyGroups_def)
qed

lemma run_nonEmptyGroups:
  "nonEmptyGroups s \<Longrightarrow> nonEmptyGroups (run calls s)"
  unfolding run_def by (induction calls arbitrary: s) (simp_all add: exec_nonEmptyGroups)


lemma sortedGroups_items:
  assumes "nonEmptyArrays obj"
      and "(k, items) \<in> set (map (\<lambda>k. (k, sortNewestFirst (case map_of obj k of None \<Rightarrow> [] | Some xs \<Rightarrow> xs)))
                               (sort (map fst obj)))"
  shows "items \<noteq> []"
proof -
  from assms(2) have k: "k \<in> fst ` set obj"
    and items: "items = sortNewestFirst (case map_of obj k of None \<Rightarrow> [] | Some xs \<Rightarrow> xs)"
    by auto
  from k obtain xs where xs: "map_of obj k = Some xs"
    by (cases "map_of obj k") (auto simp: map_of_eq_None_iff)
  with assms(1) have "xs \<noteq> []" by (rule nonEmptyArrays_lookup)
  then have "length (sortNewestFirst xs) \<noteq> 0" by (simp add: sortNewestFirst_def)
  with items xs show ?thesis by auto
qed

lemma getGroupedFromMemory_items:
  assumes "nonEmptyGroups s" and "(k, items) \<in> set (getGroupedFromMemory pk s)"
  shows "items \<noteq> []"
proof -
  have "nonEmptyArrays (case map_of (memoryNotes s) pk of None \<Rightarrow> [] | Some u \<Rightarrow> u)"
    using assms(1)
    by (auto simp: nonEmptyGroups_def nonEmptyArrays_Nil split: option.splits
             dest: nonEmptyGroups_lookup)
  from sortedGroups_items [OF this] assms(2) show ?thesis
    by (simp add: getGroupedFromMemory_def Let_def)
qed

lemma groupEntities_nonEmptyArrays:
  "nonEmptyArrays groups \<Longrightarrow> groupEntities e entities groups = Inr g \<Longrightarrow> nonEmptyArrays g"
proof (induction entities arbitrary: groups)
  case Nil
  then show ?case by simp
next
  case (Cons entity entities)
  show ?case
  proof (cases "getProperty groups (groupKey entity)")
    case Undefined
    with Cons.prems Cons.IH [of "AList.update (groupKey entity)
        [\<lparr>note_id = rowKey entity, note_text = entity_text entity,
          note_timestamp = validTimestamp e (entity_timestamp entity)\<rparr>] groups"]
    show ?thesis by (simp add: Let_def nonEmptyArrays_update)
  next
    case (Own xs)
    with Cons.prems Cons.IH [of "AList.update (groupKey entity)
        (xs @ [\<lparr>note_id = rowKey entity, note_text = entity_text entity,
          note_timestamp = validTimestamp e (entity_timestamp entity)\<rparr>]) groups"]
    show ?thesis by (simp add: Let_def nonEmptyArrays_update)
  next
    case (Inherited len)
    with Cons.prems show ?thesis by (simp add: Let_def)
  qed
qed

lemma listNotesData_resolved:
  assumes "getOrCreateUserId e s = (u, s1)" "getUserPartitionKey e u s1 = (pk, s2)"
  shows "listNotesData e s =
     (if client e \<and> listThrows e = None then
        (case groupEntities e (listEntities pk None (tableRows s2)) [] of
           Inl err \<Rightarrow> (getGroupedFromMemory pk s2, s2)
         | Inr groups \<Rightarrow>
             (map (\<lambda>k. (k, sortNewestFirst (case map_of groups k of None \<Rightarrow> [] | Some xs \<Rightarrow> xs)))
                  (sort (map fst groups)), s2))
      else (getGroupedFromMemory pk s2, s2))"
  using assms by (simp add: listNotesData_def)

lemma listNotesData_items:
  assumes "nonEmptyGroups s" and "(k, items) \<in> set (fst (listNotesData e s))"
  shows "items \<noteq> []"
proof -
  obtain u s1 where g: "getOrCreateUserId e s = (u, s1)" by (cases "getOrCreateUserId e s")
  obtain pk s2 where p: "getUserPartitionKey e u s1 = (pk, s2)" by (cases "getUserPartitionKey e u s1")
  from resolve_memory [OF g p] assms(1) have inv2: "nonEmptyGroups s2"
    by (simp add: nonEmptyGroups_def)
  show ?thesis
  proof (cases "client e \<and> listThrows e = None")
    case durable: True
    show ?thesis
    proof (cases "groupEntities e (listEntities pk None (tableRows s2)) []")
      case (Inl err)
      with durable assms(2) have "(k, items) \<in> set (getGroupedFromMemory pk s2)"
        by (simp add: listNotesData_resolved [OF g p])
      with inv2 show ?thesis by (rule getGroupedFromMemory_items)
    next
      case (Inr groups)
      from groupEntities_nonEmptyArrays [OF nonEmptyArrays_Nil Inr]
      have "nonEmptyArrays groups" .
      from sortedGroups_items [OF this] durable Inr assms(2) show ?thesis
        by (simp add: listNotesData_resolved [OF g p])
    qed
  next
    case False
    with assms(2) have "(k, items) \<in> set (getGroupedFromMemory pk s2)"
      by (auto simp: listNotesData_resolved [OF g p])
    with inv2 show ?thesis by (rule getGroupedFromMemory_items)
  qed
qed

lemma initialState_nonEmptyGroups: "nonEmptyGroups (initialState rows)"
  by (simp add: initialState_def nonEmptyGroups_def)

text \<open>
  Claim C9. In every reachable state each logical key present under a partition of
  \<^verbatim>\<open>memoryNotes\<close> holds a non-empty array: the initial state satisfies the invariant,
  every call preserves it, so every state a sequence of calls leaves satisfies it, and
  every key \<^verbatim>\<open>listNoteKeys\<close> reports there has a group with at least one note. The
  reads leave \<^verbatim>\<open>memoryNotes\<close> as it is.
\<close>

theorem memoryNotes_groups_never_empty:
  "nonEmptyGroups (initialState rows)
   \<and> (nonEmptyGroups s \<longrightarrow> nonEmptyGroups (exec c s))
   \<and> nonEmptyGroups (run calls (initialState rows))
   \<and> (\<forall>k \<in> set (fst (listNoteKeys e (run calls (initialState rows)))).
        \<exists>items. (k, items) \<in> set (fst (listNotesData e (run calls (initialState rows)))) \<and> items \<noteq> [])
   \<and> memoryNotes (snd (peelNote e key s)) = memoryNotes s
   \<and> memoryNotes (snd (listNotesData e s)) = memoryNotes s
   \<and> memoryNotes (snd (listNoteKeys e s)) = memoryNotes s"
proof -
  let ?s = "run calls (initialState rows)"
  have reads: "memoryNotes (snd (peelNote e key s)) = memoryNotes s"
    "memoryNotes (snd (listNotesData e s)) = memoryNotes s"
    "memoryNotes (snd (listNoteKeys e s)) = memoryNotes s"
    using peelNote_state [of e key s] listNotesData_state [of e s]
    by (auto simp: listNoteKeys_state)
  have reach: "nonEmptyGroups ?s"
    by (rule run_nonEmptyGroups [OF initialState_nonEmptyGroups])
  have "\<exists>items. (k, items) \<in> set (fst (listNotesData e ?s)) \<and> items \<noteq> []"
    if "k \<in> set (fst (listNoteKeys e ?s))" for k
  proof -
    from that have "k \<in> fst ` set (fst (listNotesData e ?s))"
      by (simp add: listNoteKeys_def split: prod.splits)
    then obtain items where "(k, items) \<in> set (fst (listNotesData e ?s))" by auto
    with listNotesData_items [OF reach this] show ?thesis by blast
  qed
  with reach reads initialState_nonEmptyGroups exec_nonEmptyGroups show ?thesis by blast
qed


theorem memoryNotes_groups_never_empty_witness:
  "nonEmptyGroups (initialState [])
   \<and> nonEmptyGroups (exec (RemoveNote (offline 7 ''u3'') ''work'') (initialState []))
   \<and> nonEmptyGroups
        (run [StickNote (offline 5 ''u1'') ''work'' ''a'', StickNote (offline 6 ''u2'') ''idea'' ''b'',
              RemoveNote (offline 7 ''u3'') ''work''] (initialState []))
   \<and> fst (listNoteKeys (offline 8 ''u4'')
        (run [StickNote (offline 5 ''u1'') ''work'' ''a'', StickNote (offline 6 ''u2'') ''idea'' ''b'',
              RemoveNote (offline 7 ''u3'') ''work''] (initialState []))) = [''idea'']
   \<and> fst (listNotesData (offline 8 ''u4'')
        (run [StickNote (offline 5 ''u1'') ''work'' ''a'', StickNote (offline 6 ''u2'') ''idea'' ''b'',
              RemoveNote (offline 7 ''u3'') ''work''] (initialState [])))
       = [(''idea'', [\<lparr>note_id = ''u2'', note_text = ''b'', note_timestamp = 6\<rparr>])]"
proof -
  have keys: "fst (listNoteKeys (offline 8 ''u4'')
        (run [StickNote (offline 5 ''u1'') ''work'' ''a'', StickNote (offline 6 ''u2'') ''idea'' ''b'',
              RemoveNote (offline 7 ''u3'') ''work''] (initialState []))) = [''idea'']"
    by code_simp
  have groups: "fst (listNotesData (offline 8 ''u4'')
        (run [StickNote (offline 5 ''u1'') ''work'' ''a'', StickNote (offline 6 ''u2'') ''idea'' ''b'',
              RemoveNote (offline 7 ''u3'') ''work''] (initialState [])))
       = [(''idea'', [\<lparr>note_id = ''u2'', note_text = ''b'', note_timestamp = 6\<rparr>])]"
    by code_simp
  from memoryNotes_groups_never_empty
    [of "[]" "initialState []" "RemoveNote (offline 7 ''u3'') ''work''"
        "[StickNote (offline 5 ''u1'') ''work'' ''a'', StickNote (offline 6 ''u2'') ''idea'' ''b'',
          RemoveNote (offline 7 ''u3'') ''work'']" "offline 8 ''u4''"]
    keys groups
  show ?thesis by simp
qed

section \<open>The in-memory store seen through one partition and key\<close>


lemma getProperty_own:
  "\<not> inheritedName key \<Longrightarrow>
   getProperty obj key = (case map_of obj key of None \<Rightarrow> Undefined | Some v \<Rightarrow> Own v)"
  by (simp add: getProperty_def inheritedName_def split: option.splits)

lemma saveNoteInMemory_remember:
  assumes "\<not> inheritedName key"
  shows "saveNoteInMemory pk key text ts uuid s =
     (Inr (), remember pk key \<lparr>note_id = uuid, note_text = text, note_timestamp = ts\<rparr> s)"
proof (cases "map_of (memoryNotes s) pk")
  case None
  then show ?thesis
    using assms
    by (simp add: saveNoteInMemory_def remember_def notesUnder_def partitionNotes_def
          getProperty_own update_conv' Let_def)
next
  case (Some u)
  then show ?thesis
    using assms
    by (cases "map_of u key")
       (simp_all add: saveNoteInMemory_def remember_def notesUnder_def partitionNotes_def
          getProperty_own Let_def)
qed

lemma stickNote_in_memory:
  assumes "currentUserId s = Some t" "t \<noteq> []" "storesInMemory e" "\<not> inheritedName key"
  shows "stickNote e key text s = (Inr (), remember (userPartition t) key (memorised e text) s)"
  using assms
  by (auto simp: stickNote_def Let_def getOrCreateUserId_fixed getUserPartitionKey_fixed
        saveNoteInMemory_remember storesInMemory_def memorised_def)

lemma remember_fields [simp]:
  "currentUserId (remember pk key n s) = currentUserId s"
  "tableRows (remember pk key n s) = tableRows s"
  by (simp_all add: remember_def)

lemma partitionNotes_remember:
  "partitionNotes pk' (remember pk key n s) =
     (if pk' = pk then AList.update key (notesUnder pk key s @ [n]) (partitionNotes pk s)
      else partitionNotes pk' s)"
  by (simp add: remember_def partitionNotes_def update_conv')

lemma notesUnder_remember:
  "notesUnder pk' key' (remember pk key n s) =
     (if pk' = pk \<and> key' = key then notesUnder pk key s @ [n] else notesUnder pk' key' s)"
  by (simp add: notesUnder_def partitionNotes_remember update_conv')

lemma getGroupedFromMemory_notes:
  "getGroupedFromMemory pk s =
     map (\<lambda>k. (k, sortNewestFirst (notesUnder pk k s))) (sort (map fst (partitionNotes pk s)))"
  by (simp add: getGroupedFromMemory_def notesUnder_def partitionNotes_def Let_def)

lemma getLatestNoteFromMemory_notes:
  assumes "\<not> inheritedName key"
  shows "getLatestNoteFromMemory pk key s =
     Inr (case sortNewestFirst (notesUnder pk key s) of [] \<Rightarrow> None | n # ns \<Rightarrow> Some n)"
proof (cases "map_of (memoryNotes s) pk")
  case None
  then show ?thesis
    by (simp add: getLatestNoteFromMemory_def notesUnder_def partitionNotes_def sortNewestFirst_def)
next
  case (Some u)
  then show ?thesis
    using assms
    by (cases "map_of u key")
       (auto simp: getLatestNoteFromMemory_def notesUnder_def partitionNotes_def
          sortNewestFirst_def getProperty_own split: list.splits)
qed

lemma map_of_tabulate:
  "map_of (map (\<lambda>k. (k, f k)) ks) key = (if key \<in> set ks then Some (f key) else None)"
  by (induction ks) auto

lemma newestFirst_sortNewestFirst: "newestFirst (sortNewestFirst xs)"
proof -
  have "sorted (map (\<lambda>n. - note_timestamp n) (sort_key (\<lambda>n. - note_timestamp n) xs))"
    by (rule sorted_sort_key)
  then show ?thesis
    by (simp add: newestFirst_def sortNewestFirst_def sorted_map)
qed

lemma sortNewestFirst_snoc:
  assumes "\<forall>x \<in> set xs. note_timestamp x < note_timestamp n"
  shows "sortNewestFirst (xs @ [n]) = n # sortNewestFirst xs"
proof -
  have "foldr (insort_key (\<lambda>n. - note_timestamp n)) xs [n]
        = n # foldr (insort_key (\<lambda>n. - note_timestamp n)) xs []"
    using assms by (induction xs) auto
  then show ?thesis by (simp add: sortNewestFirst_def sort_key_def)
qed

section \<open>Ordering of the grouped listing\<close>


lemma sortedGroups_ordering:
  "sorted (map fst (map (\<lambda>k. (k, sortNewestFirst (f k))) (sort ks)))
   \<and> (\<forall>(k, items) \<in> set (map (\<lambda>k. (k, sortNewestFirst (f k))) (sort ks)). newestFirst items)"
  by (auto simp: comp_def newestFirst_sortNewestFirst)

lemma getGroupedFromMemory_ordering:
  "sorted (map fst (getGroupedFromMemory pk s))
   \<and> (\<forall>(k, items) \<in> set (getGroupedFromMemory pk s). newestFirst items)"
  unfolding getGroupedFromMemory_notes by (rule sortedGroups_ordering)

lemma listNotesData_sorted:
  "sorted (map fst (fst (listNotesData e s)))
   \<and> (\<forall>(k, items) \<in> set (fst (listNotesData e s)). newestFirst items)"
proof -
  obtain u s1 where g: "getOrCreateUserId e s = (u, s1)" by (cases "getOrCreateUserId e s")
  obtain pk s2 where p: "getUserPartitionKey e u s1 = (pk, s2)" by (cases "getUserPartitionKey e u s1")
  show ?thesis
  proof (cases "client e \<and> listThrows e = None")
    case durable: True
    show ?thesis
    proof (cases "groupEntities e (listEntities pk None (tableRows s2)) []")
      case (Inl err)
      with durable getGroupedFromMemory_ordering [of pk s2] show ?thesis
        by (simp add: listNotesData_resolved [OF g p])
    next
      case (Inr groups)
      with durable
        sortedGroups_ordering [of "\<lambda>k. case map_of groups k of None \<Rightarrow> [] | Some xs \<Rightarrow> xs" "map fst groups"]
      show ?thesis
        by (simp add: listNotesData_resolved [OF g p])
    qed
  next
    case False
    with getGroupedFromMemory_ordering [of pk s2] show ?thesis
      by (auto simp: listNotesData_resolved [OF g p])
  qed
qed

lemma listNotesData_in_memory:
  assumes "currentUserId s = Some t" "t \<noteq> []" "readsFromMemory e"
  shows "listNotesData e s = (getGroupedFromMemory (userPartition t) s, s)"
  using assms
  by (auto simp: listNotesData_def getOrCreateUserId_fixed getUserPartitionKey_fixed
        readsFromMemory_def)

lemma newestFirst_subseq:
  assumes "newestFirst items" "set ys \<subseteq> set items"
      and "sorted_wrt (\<lambda>a b. note_timestamp b < note_timestamp a) ys"
  shows "subseq ys items"
  using assms
proof (induction items arbitrary: ys)
  case Nil
  then show ?case by simp
next
  case (Cons x items)
  from Cons.prems(1) have tail: "newestFirst items"
    and top: "\<forall>z \<in> set items. note_timestamp z \<le> note_timestamp x"
    by (simp_all add: newestFirst_def)
  show ?case
  proof (cases ys)
    case Nil
    then show ?thesis by simp
  next
    case (Cons y ys')
    with Cons.prems(3) have desc: "sorted_wrt (\<lambda>a b. note_timestamp b < note_timestamp a) ys'"
      and below: "\<forall>z \<in> set ys'. note_timestamp z < note_timestamp y"
      by simp_all
    show ?thesis
    proof (cases "x = y")
      case True
      with below Cons.prems(2) Cons have "set ys' \<subseteq> set items" by auto
      from Cons.IH [OF tail this desc] True Cons show ?thesis by simp
    next
      case False
      with Cons.prems(2) Cons have y: "y \<in> set items" by auto
      with top have "note_timestamp y \<le> note_timestamp x" by simp
      with below have "\<forall>z \<in> set ys'. z \<noteq> x" by auto
      with Cons.prems(2) Cons y False have "set ys \<subseteq> set items" by auto
      from Cons.IH [OF tail this Cons.prems(3)] show ?thesis by (rule list_emb_Cons)
    qed
  qed
qed

lemma newestFirst_three:
  assumes "newestFirst items" "a \<in> set items" "b \<in> set items" "c \<in> set items"
      and "note_timestamp a < note_timestamp b" "note_timestamp b < note_timestamp c"
  shows "subseq [c, b, a] items"
  using assms by (intro newestFirst_subseq) auto

lemma resolvedKey_nonempty: "resolvedKey key \<noteq> []"
  by (simp add: resolvedKey_def DEFAULT_NOTE_KEY_def split: option.splits list.splits)

lemma addNote_stickNote: "snd (addNote e text key s) = snd (stickNote e (resolvedKey key) text s)"
  by (simp add: addNote_state resolvedKey_def)

lemma listNotesData_memory_group:
  assumes "currentUserId s = Some t" "t \<noteq> []" "readsFromMemory e"
      and "notesUnder (userPartition t) key s \<noteq> []"
  shows "map_of (fst (listNotesData e s)) key = Some (sortNewestFirst (notesUnder (userPartition t) key s))"
proof -
  from assms(4) have "key \<in> fst ` set (partitionNotes (userPartition t) s)"
    by (auto simp: notesUnder_def split: option.splits dest: map_of_SomeD intro: rev_image_eqI)
  then show ?thesis
    by (simp add: listNotesData_in_memory [OF assms(1-3)] getGroupedFromMemory_notes map_of_tabulate)
qed

lemma set_sortNewestFirst [simp]: "set (sortNewestFirst xs) = set xs"
  by (simp add: sortNewestFirst_def)

lemma three_notes_newest_first:
  assumes tenant: "currentUserId s = Some t" "t \<noteq> []"
      and key: "\<not> inheritedName (resolvedKey key)"
      and mem: "storesInMemory e1" "storesInMemory e2" "storesInMemory e3" "readsFromMemory e"
      and times: "now e1 < now e2" "now e2 < now e3"
  shows "\<exists>items. map_of (fst (listNotesData e
            (snd (addNote e3 text3 key (snd (addNote e2 text2 key (snd (addNote e1 text1 key s)))))))) (resolvedKey key)
           = Some items
         \<and> subseq [memorised e3 text3, memorised e2 text2, memorised e1 text1] items"
proof -
  let ?pk = "userPartition t" and ?k = "resolvedKey key"
  let ?n1 = "memorised e1 text1" and ?n2 = "memorised e2 text2" and ?n3 = "memorised e3 text3"
  let ?s1 = "remember ?pk ?k ?n1 s"
  let ?s2 = "remember ?pk ?k ?n2 ?s1"
  let ?s3 = "remember ?pk ?k ?n3 ?s2"
  have s1: "stickNote e1 ?k text1 s = (Inr (), ?s1)"
    by (rule stickNote_in_memory [OF tenant mem(1) key])
  have s2: "stickNote e2 ?k text2 ?s1 = (Inr (), ?s2)"
    by (rule stickNote_in_memory [OF _ tenant(2) mem(2) key]) (simp add: tenant)
  have s3: "stickNote e3 ?k text3 ?s2 = (Inr (), ?s3)"
    by (rule stickNote_in_memory [OF _ tenant(2) mem(3) key]) (simp add: tenant)
  have appended: "notesUnder ?pk ?k ?s3 = notesUnder ?pk ?k s @ [?n1] @ [?n2] @ [?n3]"
    by (simp add: notesUnder_remember)
  have ts: "note_timestamp ?n1 = now e1" "note_timestamp ?n2 = now e2" "note_timestamp ?n3 = now e3"
    by (simp_all add: memorised_def)
  have user: "currentUserId ?s3 = Some t" by (simp add: tenant)
  have listed: "map_of (fst (listNotesData e ?s3)) ?k = Some (sortNewestFirst (notesUnder ?pk ?k ?s3))"
    by (rule listNotesData_memory_group [OF user tenant(2) mem(4)]) (simp add: appended)
  have "subseq [?n3, ?n2, ?n1] (sortNewestFirst (notesUnder ?pk ?k ?s3))"
    using times by (intro newestFirst_three newestFirst_sortNewestFirst) (simp_all add: appended ts)
  with listed show ?thesis by (simp add: addNote_stickNote s1 s2 s3)
qed

section \<open>Notes that reach the table\<close>

lemma set_placeRow [simp]: "set (placeRow r xs) = insert r (set xs)"
  by (induction xs) auto

lemma filter_placeRow: "\<not> P r \<Longrightarrow> filter P (placeRow r xs) = filter P xs"
  by (induction xs) auto

lemma upsertEntity_member: "entity\<lparr>entity_timestamp := Some w\<rparr> \<in> set (upsertEntity w entity rows)"
  by (auto simp: upsertEntity_def list_ex_iff Let_def)

lemma upsertEntity_keeps:
  "x \<in> set rows \<Longrightarrow> \<not> sameRow entity x \<Longrightarrow> x \<in> set (upsertEntity w entity rows)"
  by (auto simp: upsertEntity_def Let_def)

lemma upsertEntity_subset:
  "set (upsertEntity w entity rows) \<subseteq> insert (entity\<lparr>entity_timestamp := Some w\<rparr>) (set rows)"
  by (auto simp: upsertEntity_def Let_def)

lemma stored_stamp [simp]:
  "(stored e pk key text)\<lparr>entity_timestamp := Some (serviceTime e)\<rparr> = stored e pk key text"
  by (simp add: stored_def)

lemma upsertEntity_sent:
  assumes "partitionKey a = partitionKey b" "rowKey a = rowKey b"
      and "a\<lparr>entity_timestamp := Some w\<rparr> = b\<lparr>entity_timestamp := Some w\<rparr>"
  shows "upsertEntity w a rows = upsertEntity w b rows"
proof -
  from assms(1,2) have "sameRow a = sameRow b" by (simp add: fun_eq_iff sameRow_def)
  with assms(3) show ?thesis by (simp add: upsertEntity_def Let_def)
qed

lemma stickNote_in_table:
  assumes "currentUserId s = Some t" "t \<noteq> []" "reachesTable e"
  shows "stickNote e key text s =
     (Inr (), s\<lparr>tableRows := upsertEntity (serviceTime e) (stored e (userPartition t) key text) (tableRows s)\<rparr>)"
proof -
  have "upsertEntity (serviceTime e)
          \<lparr>partitionKey = userPartition t, rowKey = randomUUID e 1, noteKey = Some key,
           entity_text = text, entity_timestamp = Some (now e)\<rparr> (tableRows s)
        = upsertEntity (serviceTime e) (stored e (userPartition t) key text) (tableRows s)"
    by (rule upsertEntity_sent) (simp_all add: stored_def)
  with assms show ?thesis
    by (simp add: stickNote_def Let_def getOrCreateUserId_fixed getUserPartitionKey_fixed
          reachesTable_def)
qed

lemma listNotesData_in_table:
  assumes "currentUserId s = Some t" "t \<noteq> []" "readsTable e"
  shows "listNotesData e s =
     (case groupEntities e (listEntities (userPartition t) None (tableRows s)) [] of
        Inl err \<Rightarrow> (getGroupedFromMemory (userPartition t) s, s)
      | Inr groups \<Rightarrow>
          (map (\<lambda>k. (k, sortNewestFirst (case map_of groups k of None \<Rightarrow> [] | Some xs \<Rightarrow> xs)))
               (sort (map fst groups)), s))"
  using assms
  by (simp add: listNotesData_def getOrCreateUserId_fixed getUserPartitionKey_fixed readsTable_def)

lemma listEntities_key:
  "listEntities pk (Some k) rows = filter (\<lambda>r. noteKey r = Some k) (listEntities pk None rows)"
  by (induction rows) (auto simp: listEntities_def)

lemma groupEntities_succeeds:
  "\<forall>x \<in> set ents. \<not> inheritedName (groupKey x) \<Longrightarrow> \<exists>g. groupEntities e ents g0 = Inr g"
  by (induction ents arbitrary: g0) (auto simp: getProperty_own Let_def split: option.splits)

lemma groupEntities_lookup:
  "groupEntities e ents g0 = Inr g \<Longrightarrow>
   map_of g k =
     (case map_of g0 k of
        None \<Rightarrow> (if filter (\<lambda>x. groupKey x = k) ents = [] then None
                 else Some (map (entityNote e) (filter (\<lambda>x. groupKey x = k) ents)))
      | Some xs0 \<Rightarrow> Some (xs0 @ map (entityNote e) (filter (\<lambda>x. groupKey x = k) ents)))"
proof (induction ents arbitrary: g0)
  case Nil
  then show ?case by (simp split: option.splits)
next
  case (Cons x ents)
  let ?n = "entityNote e x"
  show ?case
  proof (cases "getProperty g0 (groupKey x)")
    case Undefined
    then have none: "map_of g0 (groupKey x) = None"
      by (simp add: getProperty_def split: option.splits)
    from Cons.prems Undefined
    have "groupEntities e ents (AList.update (groupKey x) [?n] g0) = Inr g"
      by (simp add: entityNote_def Let_def)
    from Cons.IH [OF this] none show ?thesis
      by (auto simp: update_conv' split: option.splits)
  next
    case (Own xs)
    then have some: "map_of g0 (groupKey x) = Some xs"
      by (simp add: getProperty_def split: option.splits)
    from Cons.prems Own
    have "groupEntities e ents (AList.update (groupKey x) (xs @ [?n]) g0) = Inr g"
      by (simp add: entityNote_def Let_def)
    from Cons.IH [OF this] some show ?thesis
      by (auto simp: update_conv' split: option.splits)
  next
    case (Inherited len)
    with Cons.prems show ?thesis by (simp add: Let_def)
  qed
qed

lemma groupEntities_distinct:
  "groupEntities e ents g0 = Inr g \<Longrightarrow> distinct (map fst g0) \<Longrightarrow> distinct (map fst g)"
proof (induction ents arbitrary: g0)
  case Nil
  then show ?case by simp
next
  case (Cons x ents)
  then show ?case
    by (cases "getProperty g0 (groupKey x)") (auto simp: Let_def distinct_update)
qed

lemma listNotesData_table_group:
  assumes "currentUserId s = Some t" "t \<noteq> []" "readsTable e"
      and "\<forall>x \<in> set (listEntities (userPartition t) None (tableRows s)). \<not> inheritedName (groupKey x)"
  shows "map_of (fst (listNotesData e s)) k =
     (if filter (\<lambda>x. groupKey x = k) (listEntities (userPartition t) None (tableRows s)) = [] then None
      else Some (sortNewestFirst (map (entityNote e)
              (filter (\<lambda>x. groupKey x = k) (listEntities (userPartition t) None (tableRows s))))))"
proof -
  let ?ents = "listEntities (userPartition t) None (tableRows s)"
  from groupEntities_succeeds [OF assms(4), of e "[]"]
  obtain g where g: "groupEntities e ?ents [] = Inr g" by blast
  from groupEntities_lookup [OF g, of k]
  have look: "map_of g k = (if filter (\<lambda>x. groupKey x = k) ?ents = [] then None
                 else Some (map (entityNote e) (filter (\<lambda>x. groupKey x = k) ?ents)))"
    by simp
  have "k \<in> fst ` set g \<longleftrightarrow> map_of g k \<noteq> None"
    by (simp add: map_of_eq_None_iff)
  with look show ?thesis
    by (simp add: listNotesData_in_table [OF assms(1-3)] g map_of_tabulate)
qed

lemma three_entities_newest_first:
  assumes tenant: "currentUserId s = Some t" "t \<noteq> []"
      and key: "\<not> inheritedName (resolvedKey key)"
      and others: "\<forall>x \<in> set (listEntities (userPartition t) None (tableRows s)). \<not> inheritedName (groupKey x)"
      and table: "reachesTable e1" "reachesTable e2" "reachesTable e3" "readsTable e"
      and times: "serviceTime e1 < serviceTime e2" "serviceTime e2 < serviceTime e3"
      and fresh: "randomUUID e2 1 \<noteq> randomUUID e1 1" "randomUUID e3 1 \<noteq> randomUUID e1 1"
                 "randomUUID e3 1 \<noteq> randomUUID e2 1"
  shows "\<exists>items. map_of (fst (listNotesData e
            (snd (addNote e3 text3 key (snd (addNote e2 text2 key (snd (addNote e1 text1 key s)))))))) (resolvedKey key)
           = Some items
         \<and> subseq [entityNote e (stored e3 (userPartition t) (resolvedKey key) text3),
                    entityNote e (stored e2 (userPartition t) (resolvedKey key) text2),
                    entityNote e (stored e1 (userPartition t) (resolvedKey key) text1)] items"
proof -
  let ?pk = "userPartition t" and ?k = "resolvedKey key"
  let ?r1 = "stored e1 ?pk ?k text1" and ?r2 = "stored e2 ?pk ?k text2" and ?r3 = "stored e3 ?pk ?k text3"
  define s1 where "s1 = s\<lparr>tableRows := upsertEntity (serviceTime e1) ?r1 (tableRows s)\<rparr>"
  define s2 where "s2 = s1\<lparr>tableRows := upsertEntity (serviceTime e2) ?r2 (tableRows s1)\<rparr>"
  define s3 where "s3 = s2\<lparr>tableRows := upsertEntity (serviceTime e3) ?r3 (tableRows s2)\<rparr>"
  have user: "currentUserId s1 = Some t" "currentUserId s2 = Some t" "currentUserId s3 = Some t"
    by (simp_all add: s1_def s2_def s3_def tenant)
  have rows: "tableRows s1 = upsertEntity (serviceTime e1) ?r1 (tableRows s)"
             "tableRows s2 = upsertEntity (serviceTime e2) ?r2 (tableRows s1)"
             "tableRows s3 = upsertEntity (serviceTime e3) ?r3 (tableRows s2)"
    by (simp_all add: s1_def s2_def s3_def)
  have st1: "stickNote e1 ?k text1 s = (Inr (), s1)"
    unfolding s1_def by (rule stickNote_in_table [OF tenant table(1)])
  have st2: "stickNote e2 ?k text2 s1 = (Inr (), s2)"
    unfolding s2_def by (rule stickNote_in_table [OF user(1) tenant(2) table(2)])
  have st3: "stickNote e3 ?k text3 s2 = (Inr (), s3)"
    unfolding s3_def by (rule stickNote_in_table [OF user(2) tenant(2) table(3)])
  have differ: "\<not> sameRow ?r2 ?r1" "\<not> sameRow ?r3 ?r1" "\<not> sameRow ?r3 ?r2"
    using fresh by (simp_all add: sameRow_def stored_def)
  have "?r1 \<in> set (tableRows s1)"
    using upsertEntity_member [where entity = ?r1 and w = "serviceTime e1" and rows = "tableRows s"] by (simp add: rows)
  then have "?r1 \<in> set (tableRows s2)"
    unfolding rows(2) using differ(1) by (rule upsertEntity_keeps)
  then have m1: "?r1 \<in> set (tableRows s3)"
    unfolding rows(3) using differ(2) by (rule upsertEntity_keeps)
  have "?r2 \<in> set (tableRows s2)"
    using upsertEntity_member [where entity = ?r2 and w = "serviceTime e2" and rows = "tableRows s1"] by (simp add: rows)
  then have m2: "?r2 \<in> set (tableRows s3)"
    unfolding rows(3) using differ(3) by (rule upsertEntity_keeps)
  have m3: "?r3 \<in> set (tableRows s3)"
    using upsertEntity_member [where entity = ?r3 and w = "serviceTime e3" and rows = "tableRows s2"] by (simp add: rows)
  have sub: "set (tableRows s3) \<subseteq> {?r1, ?r2, ?r3} \<union> set (tableRows s)"
    using upsertEntity_subset [of "serviceTime e1" ?r1 "tableRows s"]
      upsertEntity_subset [of "serviceTime e2" ?r2 "tableRows s1"]
      upsertEntity_subset [of "serviceTime e3" ?r3 "tableRows s2"]
    by (auto simp: rows)
  have gk: "groupKey ?r1 = ?k" "groupKey ?r2 = ?k" "groupKey ?r3 = ?k"
    using resolvedKey_nonempty [of key] by (cases ?k; simp add: groupKey_def stored_def)+
  have pk: "partitionKey ?r1 = ?pk" "partitionKey ?r2 = ?pk" "partitionKey ?r3 = ?pk"
    by (simp_all add: stored_def)
  let ?ents = "listEntities ?pk None (tableRows s3)"
  have ok: "\<forall>x \<in> set ?ents. \<not> inheritedName (groupKey x)"
    using sub others key gk by (auto simp: listEntities_def)
  let ?group = "filter (\<lambda>x. groupKey x = ?k) ?ents"
  have members: "?r1 \<in> set ?group" "?r2 \<in> set ?group" "?r3 \<in> set ?group"
    using m1 m2 m3 by (simp_all add: listEntities_def gk pk)
  then have nonempty: "?group \<noteq> []" by (auto simp: filter_empty_conv)
  have listed: "map_of (fst (listNotesData e s3)) ?k = Some (sortNewestFirst (map (entityNote e) ?group))"
    using nonempty by (simp add: listNotesData_table_group [OF user(3) tenant(2) table(4) ok])
  have ts: "note_timestamp (entityNote e ?r1) = serviceTime e1"
           "note_timestamp (entityNote e ?r2) = serviceTime e2"
           "note_timestamp (entityNote e ?r3) = serviceTime e3"
    by (simp_all add: entityNote_def stored_def validTimestamp_def)
  have "subseq [entityNote e ?r3, entityNote e ?r2, entityNote e ?r1]
          (sortNewestFirst (map (entityNote e) ?group))"
    using times members by (intro newestFirst_three newestFirst_sortNewestFirst) (simp_all add: ts)
  with listed show ?thesis by (simp add: addNote_stickNote st1 st2 st3)
qed

text \<open>
  Claim C4, as stated, fails in its second part: three notes added under one key are not
  returned at all when the listing is not served by the store that took the writes. Below
  the three writes reach the table; a listing whose query is rejected falls back to the
  in-memory store, which holds nothing under the key, while a listing that reads the
  table returns the three, newest first.
\<close>

theorem listNotesData_fallback_counterexample:
  "map_of (fst (listNotesData ((healthy 9 ''q'')\<lparr>listThrows := Some 0\<rparr>)
        (snd (addNote (healthy 3 ''c'') ''third'' (Some ''work'')
          (snd (addNote (healthy 2 ''b'') ''second'' (Some ''work'')
            (snd (addNote (healthy 1 ''a'') ''first'' (Some ''work'') (session ''u1'')))))))))
        ''work''
      = None
   \<and> map_of (fst (listNotesData (healthy 9 ''q'')
        (snd (addNote (healthy 3 ''c'') ''third'' (Some ''work'')
          (snd (addNote (healthy 2 ''b'') ''second'' (Some ''work'')
            (snd (addNote (healthy 1 ''a'') ''first'' (Some ''work'') (session ''u1'')))))))))
        ''work''
      = Some [\<lparr>note_id = ''c'', note_text = ''third'', note_timestamp = 3\<rparr>,
              \<lparr>note_id = ''b'', note_text = ''second'', note_timestamp = 2\<rparr>,
              \<lparr>note_id = ''a'', note_text = ''first'', note_timestamp = 1\<rparr>]"
  by code_simp

text \<open>
  Claim C4, amended. For every state and every behaviour of the backend, \<^verbatim>\<open>listNotesData\<close>
  returns its groups with the keys in ascending lexicographic order and the items of each
  group newest first; so three notes of a returned group with strictly increasing
  timestamps come in the order newest, middle, oldest. Three notes added under one key
  are returned, in that order, when the three writes and the listing are served by the
  same store: by the in-memory store, with the clock strictly increasing over the three
  writes; by the table, with the time the service stamps strictly increasing and three
  different row keys. Nothing is said of a key that is a name every object inherits, nor
  of a partition of the table with a row grouped under such a name.
\<close>

theorem listNotesData_ordering:
  "sorted (map fst (fst (listNotesData e s)))
   \<and> (\<forall>(k, items) \<in> set (fst (listNotesData e s)). newestFirst items)
   \<and> (\<forall>(k, items) \<in> set (fst (listNotesData e s)).
         \<forall>a \<in> set items. \<forall>b \<in> set items. \<forall>c \<in> set items.
           note_timestamp a < note_timestamp b \<and> note_timestamp b < note_timestamp c
           \<longrightarrow> subseq [c, b, a] items)
   \<and> (currentUserId s0 = Some t \<and> t \<noteq> [] \<and> \<not> inheritedName (resolvedKey key)
        \<and> storesInMemory e1 \<and> storesInMemory e2 \<and> storesInMemory e3 \<and> readsFromMemory e0
        \<and> now e1 < now e2 \<and> now e2 < now e3
      \<longrightarrow> (\<exists>items.
            map_of (fst (listNotesData e0
              (snd (addNote e3 text3 key (snd (addNote e2 text2 key (snd (addNote e1 text1 key s0))))))))
              (resolvedKey key) = Some items
            \<and> subseq [memorised e3 text3, memorised e2 text2, memorised e1 text1] items))
   \<and> (currentUserId s0 = Some t \<and> t \<noteq> [] \<and> \<not> inheritedName (resolvedKey key)
        \<and> (\<forall>x \<in> set (listEntities (userPartition t) None (tableRows s0)). \<not> inheritedName (groupKey x))
        \<and> reachesTable d1 \<and> reachesTable d2 \<and> reachesTable d3 \<and> readsTable d
        \<and> serviceTime d1 < serviceTime d2 \<and> serviceTime d2 < serviceTime d3
        \<and> randomUUID d2 1 \<noteq> randomUUID d1 1 \<and> randomUUID d3 1 \<noteq> randomUUID d1 1
        \<and> randomUUID d3 1 \<noteq> randomUUID d2 1
      \<longrightarrow> (\<exists>items.
            map_of (fst (listNotesData d
              (snd (addNote d3 text3 key (snd (addNote d2 text2 key (snd (addNote d1 text1 key s0))))))))
              (resolvedKey key) = Some items
            \<and> subseq [entityNote d (stored d3 (userPartition t) (resolvedKey key) text3),
                       entityNote d (stored d2 (userPartition t) (resolvedKey key) text2),
                       entityNote d (stored d1 (userPartition t) (resolvedKey key) text1)] items))"
proof -
  have order: "\<forall>(k, items) \<in> set (fst (listNotesData e s)).
         \<forall>a \<in> set items. \<forall>b \<in> set items. \<forall>c \<in> set items.
           note_timestamp a < note_timestamp b \<and> note_timestamp b < note_timestamp c
           \<longrightarrow> subseq [c, b, a] items"
    using listNotesData_sorted [of e s] by (auto intro: newestFirst_three)
  show ?thesis
    using listNotesData_sorted [of e s] order
      three_notes_newest_first [of s0 t key e1 e2 e3 e0 text3 text2 text1]
      three_entities_newest_first [of s0 t key d1 d2 d3 d text3 text2 text1]
    by blast
qed

theorem listNotesData_ordering_witness:
  "sorted (map fst (fst (listNotesData (healthy 9 ''q'')
       \<lparr>currentUserId = Some ''u1'', memoryNotes = [],
        tableRows = [\<lparr>partitionKey = ''user-u1'', rowKey = ''r1'', noteKey = Some ''work'',
                      entity_text = ''one'', entity_timestamp = Some 1\<rparr>,
                     \<lparr>partitionKey = ''user-u1'', rowKey = ''r2'', noteKey = Some ''work'',
                      entity_text = ''three'', entity_timestamp = Some 3\<rparr>,
                     \<lparr>partitionKey = ''user-u1'', rowKey = ''r3'', noteKey = Some ''home'',
                      entity_text = ''zero'', entity_timestamp = Some 0\<rparr>,
                     \<lparr>partitionKey = ''user-u1'', rowKey = ''r4'', noteKey = Some ''work'',
                      entity_text = ''two'', entity_timestamp = Some 2\<rparr>]\<rparr>)))
   \<and> (\<exists>items.
        map_of (fst (listNotesData (healthy 9 ''q'')
       \<lparr>currentUserId = Some ''u1'', memoryNotes = [],
        tableRows = [\<lparr>partitionKey = ''user-u1'', rowKey = ''r1'', noteKey = Some ''work'',
                      entity_text = ''one'', entity_timestamp = Some 1\<rparr>,
                     \<lparr>partitionKey = ''user-u1'', rowKey = ''r2'', noteKey = Some ''work'',
                      entity_text = ''three'', entity_timestamp = Some 3\<rparr>,
                     \<lparr>partitionKey = ''user-u1'', rowKey = ''r3'', noteKey = Some ''home'',
                      entity_text = ''zero'', entity_timestamp = Some 0\<rparr>,
                     \<lparr>partitionKey = ''user-u1'', rowKey = ''r4'', noteKey = Some ''work'',
                      entity_text = ''two'', entity_timestamp = Some 2\<rparr>]\<rparr>)) ''work''
          = Some items
        \<and> newestFirst items
        \<and> subseq [\<lparr>note_id = ''r2'', note_text = ''three'', note_timestamp = 3\<rparr>,
                   \<lparr>note_id = ''r4'', note_text = ''two'', note_timestamp = 2\<rparr>,
                   \<lparr>note_id = ''r1'', note_text = ''one'', note_timestamp = 1\<rparr>] items)
   \<and> (\<exists>items.
        map_of (fst (listNotesData (offline 9 ''q'')
          (snd (addNote (offline 6 ''c'') ''third'' (Some ''work'')
            (snd (addNote (offline 5 ''b'') ''second'' (Some ''work'')
              (snd (addNote (offline 4 ''a'') ''first'' (Some ''work'') (session ''u1''))))))))) ''work''
          = Some items
        \<and> subseq [\<lparr>note_id = ''c'', note_text = ''third'', note_timestamp = 6\<rparr>,
                   \<lparr>note_id = ''b'', note_text = ''second'', note_timestamp = 5\<rparr>,
                   \<lparr>note_id = ''a'', note_text = ''first'', note_timestamp = 4\<rparr>] items)
   \<and> (\<exists>items.
        map_of (fst (listNotesData (healthy 9 ''q'')
          (snd (addNote (healthy 6 ''c'') ''third'' (Some ''work'')
            (snd (addNote (healthy 5 ''b'') ''second'' (Some ''work'')
              (snd (addNote (healthy 4 ''a'') ''first'' (Some ''work'') (session ''u1''))))))))) ''work''
          = Some items
        \<and> subseq [\<lparr>note_id = ''c'', note_text = ''third'', note_timestamp = 6\<rparr>,
                   \<lparr>note_id = ''b'', note_text = ''second'', note_timestamp = 5\<rparr>,
                   \<lparr>note_id = ''a'', note_text = ''first'', note_timestamp = 4\<rparr>] items)"
proof -
  let ?s = "\<lparr>currentUserId = Some ''u1'', memoryNotes = [],
        tableRows = [\<lparr>partitionKey = ''user-u1'', rowKey = ''r1'', noteKey = Some ''work'',
                      entity_text = ''one'', entity_timestamp = Some 1\<rparr>,
                     \<lparr>partitionKey = ''user-u1'', rowKey = ''r2'', noteKey = Some ''work'',
                      entity_text = ''three'', entity_timestamp = Some 3\<rparr>,
                     \<lparr>partitionKey = ''user-u1'', rowKey = ''r3'', noteKey = Some ''home'',
                      entity_text = ''zero'', entity_timestamp = Some 0\<rparr>,
                     \<lparr>partitionKey = ''user-u1'', rowKey = ''r4'', noteKey = Some ''work'',
                      entity_text = ''two'', entity_timestamp = Some 2\<rparr>]\<rparr>"
  have key: "resolvedKey (Some ''work'') = ''work''" "\<not> inheritedName ''work''"
    by (simp_all add: resolvedKey_def inheritedName_def object_prototype_def)
  have mem: "storesInMemory (offline 4 ''a'')" "storesInMemory (offline 5 ''b'')"
    "storesInMemory (offline 6 ''c'')" "readsFromMemory (offline 9 ''q'')"
    by (simp_all add: storesInMemory_def readsFromMemory_def offline_def)
  have tab: "reachesTable (healthy 4 ''a'')" "reachesTable (healthy 5 ''b'')"
    "reachesTable (healthy 6 ''c'')" "readsTable (healthy 9 ''q'')"
    by (simp_all add: reachesTable_def readsTable_def healthy_def)
  have empty: "\<forall>x \<in> set (listEntities (userPartition ''u1'') None (tableRows (session ''u1''))).
                 \<not> inheritedName (groupKey x)"
    by (simp add: session_def listEntities_def)
  have vals: "now (offline 4 ''a'') = 4" "now (offline 5 ''b'') = 5" "now (offline 6 ''c'') = 6"
    "serviceTime (healthy 4 ''a'') = 4" "serviceTime (healthy 5 ''b'') = 5"
    "serviceTime (healthy 6 ''c'') = 6"
    "randomUUID (healthy 4 ''a'') 1 = ''a''" "randomUUID (healthy 5 ''b'') 1 = ''b''"
    "randomUUID (healthy 6 ''c'') 1 = ''c''" "currentUserId (session ''u1'') = Some ''u1''"
    by (simp_all add: offline_def healthy_def session_def)
  have made: "memorised (offline 4 ''a'') ''first'' = \<lparr>note_id = ''a'', note_text = ''first'', note_timestamp = 4\<rparr>"
    "memorised (offline 5 ''b'') ''second'' = \<lparr>note_id = ''b'', note_text = ''second'', note_timestamp = 5\<rparr>"
    "memorised (offline 6 ''c'') ''third'' = \<lparr>note_id = ''c'', note_text = ''third'', note_timestamp = 6\<rparr>"
    "entityNote (healthy 9 ''q'') (stored (healthy 4 ''a'') (userPartition ''u1'') ''work'' ''first'')
       = \<lparr>note_id = ''a'', note_text = ''first'', note_timestamp = 4\<rparr>"
    "entityNote (healthy 9 ''q'') (stored (healthy 5 ''b'') (userPartition ''u1'') ''work'' ''second'')
       = \<lparr>note_id = ''b'', note_text = ''second'', note_timestamp = 5\<rparr>"
    "entityNote (healthy 9 ''q'') (stored (healthy 6 ''c'') (userPartition ''u1'') ''work'' ''third'')
       = \<lparr>note_id = ''c'', note_text = ''third'', note_timestamp = 6\<rparr>"
    by (simp_all add: memorised_def entityNote_def stored_def validTimestamp_def offline_def healthy_def)
  have listing: "fst (listNotesData (healthy 9 ''q'') ?s)
      = [(''home'', [\<lparr>note_id = ''r3'', note_text = ''zero'', note_timestamp = 0\<rparr>]),
         (''work'', [\<lparr>note_id = ''r2'', note_text = ''three'', note_timestamp = 3\<rparr>,
                     \<lparr>note_id = ''r4'', note_text = ''two'', note_timestamp = 2\<rparr>,
                     \<lparr>note_id = ''r1'', note_text = ''one'', note_timestamp = 1\<rparr>])]"
    by code_simp
  from listNotesData_ordering
    [where e = "healthy 9 ''q''" and s = ?s
       and ?s0.0 = "session ''u1''" and t = "''u1''" and key = "Some ''work''"
       and ?e1.0 = "offline 4 ''a''" and ?e2.0 = "offline 5 ''b''" and ?e3.0 = "offline 6 ''c''"
       and ?e0.0 = "offline 9 ''q''"
       and ?text1.0 = "''first''" and ?text2.0 = "''second''" and ?text3.0 = "''third''"
       and ?d1.0 = "healthy 4 ''a''" and ?d2.0 = "healthy 5 ''b''" and ?d3.0 = "healthy 6 ''c''"
       and d = "healthy 9 ''q''"]
    key mem tab empty vals
  show ?thesis
    by (simp add: made listing)
qed

section \<open>Partition isolation\<close>


lemma userPartition_inj: "userPartition a = userPartition b \<longleftrightarrow> a = b"
  by (simp add: userPartition_def)

lemma peelNote_resolved:
  assumes "getOrCreateUserId e s = (u, s1)" "getUserPartitionKey e u s1 = (pk, s2)"
  shows "peelNote e key s =
     (if client e \<and> listThrows e = None then
        (case scanLatest (listEntities pk (Some key) (tableRows s2)) None of
           None \<Rightarrow> (Inr None, s2)
         | Some latest \<Rightarrow>
             (Inr (Some \<lparr>note_id = rowKey latest, note_text = entity_text latest,
                         note_timestamp = validTimestamp e (entity_timestamp latest)\<rparr>), s2))
      else (getLatestNoteFromMemory pk key s2, s2))"
  using assms by (simp add: peelNote_def)

lemma saveNoteInMemory_frame:
  "tableRows (snd (saveNoteInMemory pk key text ts uuid s)) = tableRows s
   \<and> currentUserId (snd (saveNoteInMemory pk key text ts uuid s)) = currentUserId s
   \<and> (pk' \<noteq> pk \<longrightarrow>
        map_of (memoryNotes (snd (saveNoteInMemory pk key text ts uuid s))) pk' = map_of (memoryNotes s) pk')"
proof -
  define mem where "mem = (case map_of (memoryNotes s) pk of
                   None \<Rightarrow> AList.update pk [] (memoryNotes s)
                 | Some _ \<Rightarrow> memoryNotes s)"
  define userNotes where "userNotes = (case map_of mem pk of None \<Rightarrow> [] | Some u \<Rightarrow> u)"
  have mem: "pk' \<noteq> pk \<Longrightarrow> map_of mem pk' = map_of (memoryNotes s) pk'"
    unfolding mem_def by (simp add: update_conv' split: option.splits)
  show ?thesis
    using mem unfolding saveNoteInMemory_def Let_def mem_def [symmetric] userNotes_def [symmetric]
    by (cases "getProperty userNotes key") (simp_all add: update_conv')
qed

lemma listEntities_upsert_other:
  assumes "partitionKey r \<noteq> pk"
  shows "listEntities pk f (upsertEntity w r rows) = listEntities pk f rows"
proof -
  let ?P = "\<lambda>x. partitionKey x = pk \<and> (case f of None \<Rightarrow> True | Some k \<Rightarrow> noteKey x = Some k)"
  let ?row = "r\<lparr>entity_timestamp := Some w\<rparr>"
  have "filter P (map (\<lambda>x. if sameRow r x then ?row else x) rows) = filter P rows"
    if "\<And>x. sameRow r x \<Longrightarrow> \<not> P x" "\<not> P ?row" for P
    using that by (induction rows) auto
  from this [of ?P] filter_placeRow [of ?P ?row rows]
  show ?thesis
    using assms by (auto simp: upsertEntity_def listEntities_def sameRow_def Let_def)
qed

lemma listEntities_delete_other:
  "pk' \<noteq> pk \<Longrightarrow> listEntities pk' f (deleteEntity pk rk rows) = listEntities pk' f rows"
  by (induction rows) (auto simp: listEntities_def deleteEntity_def)

lemma listEntities_deleteEach_other:
  "pk' \<noteq> pk \<Longrightarrow> listEntities pk' f (deleteEach e pk entities rows) = listEntities pk' f rows"
  by (induction entities arbitrary: rows) (simp_all add: listEntities_delete_other)

lemma removeFromMemory_frame:
  "tableRows (snd (removeFromMemory pk key s)) = tableRows s
   \<and> currentUserId (snd (removeFromMemory pk key s)) = currentUserId s
   \<and> (pk' \<noteq> pk \<longrightarrow>
        map_of (memoryNotes (snd (removeFromMemory pk key s))) pk' = map_of (memoryNotes s) pk')"
proof (cases "map_of (memoryNotes s) pk")
  case None
  then show ?thesis by (simp add: removeFromMemory_def)
next
  case (Some userNotes)
  then show ?thesis
    by (cases "getProperty userNotes key") (simp_all add: removeFromMemory_def update_conv')
qed

lemma tenantView_user [simp]: "tenantView t (s\<lparr>currentUserId := v\<rparr>) = tenantView t s"
  by (simp add: tenantView_def)

lemma stickNote_frame:
  assumes "currentUserId s = Some t1" "t1 \<noteq> []" "t2 \<noteq> t1"
  shows "tenantView t2 (snd (stickNote e key text s)) = tenantView t2 s
         \<and> currentUserId (snd (stickNote e key text s)) = Some t1"
proof -
  let ?pk = "userPartition t1"
  have other: "userPartition t2 \<noteq> ?pk" using assms(3) by (simp add: userPartition_inj)
  note shape = stickNote_resolved [OF getOrCreateUserId_fixed [OF assms(1,2)]
                  getUserPartitionKey_fixed [OF assms(1,2)]]
  have save: "tenantView t2 (snd (saveNoteInMemory ?pk key text ts uuid x)) = tenantView t2 x
              \<and> currentUserId (snd (saveNoteInMemory ?pk key text ts uuid x)) = currentUserId x"
    for ts uuid x
    using saveNoteInMemory_frame [of ?pk key "text" ts uuid x "userPartition t2"] other
    by (simp add: tenantView_def)
  show ?thesis
  proof (cases "client e")
    case True
    then show ?thesis
      using save assms(1) other
      by (simp add: shape tenantView_def listEntities_upsert_other)
  next
    case False
    obtain r s3 where first: "saveNoteInMemory ?pk key text (now e) (randomUUID e 1) s = (r, s3)"
      by (cases "saveNoteInMemory ?pk key text (now e) (randomUUID e 1) s")
    from save [of "now e" "randomUUID e 1" s] first assms(1)
    have s3: "tenantView t2 s3 = tenantView t2 s" "currentUserId s3 = Some t1" by simp_all
    show ?thesis
      using False first s3 save [of "now e" "randomUUID e 2" s3]
      by (cases r) (simp_all add: shape)
  qed
qed

lemma removeNote_frame:
  assumes "currentUserId s = Some t1" "t1 \<noteq> []" "t2 \<noteq> t1"
  shows "tenantView t2 (snd (removeNote e key s)) = tenantView t2 s
         \<and> currentUserId (snd (removeNote e key s)) = Some t1"
proof -
  let ?pk = "userPartition t1"
  have other: "userPartition t2 \<noteq> ?pk" using assms(3) by (simp add: userPartition_inj)
  note shape = removeNote_resolved [OF getOrCreateUserId_fixed [OF assms(1,2)]
                  getUserPartitionKey_fixed [OF assms(1,2)]]
  have rm: "tenantView t2 (snd (removeFromMemory ?pk key x)) = tenantView t2 x
              \<and> currentUserId (snd (removeFromMemory ?pk key x)) = currentUserId x" for x
    using removeFromMemory_frame [of ?pk key x "userPartition t2"] other
    by (simp add: tenantView_def)
  have rows: "tenantView t2 (s\<lparr>tableRows := deleteEach e ?pk ents (tableRows s)\<rparr>) = tenantView t2 s" for ents
    using other by (simp add: tenantView_def listEntities_deleteEach_other)
  show ?thesis
    using rm rows assms(1)
    by (simp add: shape Let_def split: option.splits)
qed

lemma listNotesData_fixed_state:
  assumes "currentUserId s = Some t" "t \<noteq> []"
  shows "snd (listNotesData e s) = s"
  using assms
  by (simp add: listNotesData_resolved [OF getOrCreateUserId_fixed [OF assms]
                  getUserPartitionKey_fixed [OF assms]] split: sum.splits)

lemma getGroupedFromMemory_view:
  "map_of (memoryNotes a) pk = map_of (memoryNotes b) pk \<Longrightarrow>
   getGroupedFromMemory pk a = getGroupedFromMemory pk b"
  by (simp add: getGroupedFromMemory_def)

lemma getLatestNoteFromMemory_view:
  "map_of (memoryNotes a) pk = map_of (memoryNotes b) pk \<Longrightarrow>
   getLatestNoteFromMemory pk key a = getLatestNoteFromMemory pk key b"
  by (simp add: getLatestNoteFromMemory_def)

lemma listNotesData_view:
  assumes "currentUserId a = Some t" "currentUserId b = Some t" "t \<noteq> []"
      and "tenantView t a = tenantView t b"
  shows "fst (listNotesData e a) = fst (listNotesData e b)"
proof -
  from assms(4) have m: "map_of (memoryNotes a) (userPartition t) = map_of (memoryNotes b) (userPartition t)"
    and r: "listEntities (userPartition t) None (tableRows a) = listEntities (userPartition t) None (tableRows b)"
    by (simp_all add: tenantView_def)
  show ?thesis
    by (simp add: listNotesData_resolved [OF getOrCreateUserId_fixed [OF assms(1,3)]
                    getUserPartitionKey_fixed [OF assms(1,3)]]
                  listNotesData_resolved [OF getOrCreateUserId_fixed [OF assms(2,3)]
                    getUserPartitionKey_fixed [OF assms(2,3)]]
                  r getGroupedFromMemory_view [OF m] split: sum.splits)
qed

lemma peelNote_view:
  assumes "currentUserId a = Some t" "currentUserId b = Some t" "t \<noteq> []"
      and "tenantView t a = tenantView t b"
  shows "fst (peelNote e key a) = fst (peelNote e key b)"
proof -
  from assms(4) have m: "map_of (memoryNotes a) (userPartition t) = map_of (memoryNotes b) (userPartition t)"
    and r: "listEntities (userPartition t) None (tableRows a) = listEntities (userPartition t) None (tableRows b)"
    by (simp_all add: tenantView_def)
  show ?thesis
    by (simp add: peelNote_resolved [OF getOrCreateUserId_fixed [OF assms(1,3)]
                    getUserPartitionKey_fixed [OF assms(1,3)]]
                  peelNote_resolved [OF getOrCreateUserId_fixed [OF assms(2,3)]
                    getUserPartitionKey_fixed [OF assms(2,3)]]
                  listEntities_key r getLatestNoteFromMemory_view [OF m] split: option.splits)
qed

lemma peelNote_fixed_state:
  assumes "currentUserId s = Some t" "t \<noteq> []"
  shows "snd (peelNote e key s) = s"
  using assms
  by (simp add: peelNote_resolved [OF getOrCreateUserId_fixed [OF assms]
                  getUserPartitionKey_fixed [OF assms]] split: option.splits)

text \<open>
  Claim C6. Let the session be bound to tenant \<open>t1\<close> when a store operation starts, and
  let \<open>t2\<close> be another tenant. Whatever the backend does, a note added under \<open>t1\<close> changes
  neither the grouped listing of \<open>t2\<close> nor what \<^verbatim>\<open>peelNote\<close> returns to \<open>t2\<close> for any key.
  More generally none of the store operations \<^verbatim>\<open>stickNote\<close>, \<^verbatim>\<open>removeNote\<close>, \<^verbatim>\<open>peelNote\<close>
  and \<^verbatim>\<open>listNotesData\<close> run under \<open>t1\<close> writes outside the partition of \<open>t1\<close> (the view of
  \<open>t2\<close> on both stores is unchanged), and what the reads return to \<open>t1\<close> depends on the
  partition of \<open>t1\<close> only. Each of them resolves its partition once, before its first
  call of the backend.
\<close>

theorem partition_isolation:
  assumes "currentUserId s = Some t1" "t1 \<noteq> []" "t2 \<noteq> []" "t1 \<noteq> t2"
  shows "fst (listNotesData e2 ((snd (stickNote e1 key text s))\<lparr>currentUserId := Some t2\<rparr>))
           = fst (listNotesData e2 (s\<lparr>currentUserId := Some t2\<rparr>))
       \<and> fst (peelNote e2 k ((snd (stickNote e1 key text s))\<lparr>currentUserId := Some t2\<rparr>))
           = fst (peelNote e2 k (s\<lparr>currentUserId := Some t2\<rparr>))
       \<and> tenantView t2 (snd (stickNote e1 key text s)) = tenantView t2 s
       \<and> tenantView t2 (snd (removeNote e1 key s)) = tenantView t2 s
       \<and> tenantView t2 (snd (peelNote e1 key s)) = tenantView t2 s
       \<and> tenantView t2 (snd (listNotesData e1 s)) = tenantView t2 s
       \<and> (\<forall>s'. currentUserId s' = Some t1 \<and> tenantView t1 s' = tenantView t1 s \<longrightarrow>
              fst (listNotesData e1 s') = fst (listNotesData e1 s)
              \<and> fst (peelNote e1 key s') = fst (peelNote e1 key s))"
proof -
  have other: "t2 \<noteq> t1" using assms(4) by simp
  let ?s' = "snd (stickNote e1 key text s)"
  have frame: "tenantView t2 ?s' = tenantView t2 s"
    using stickNote_frame [OF assms(1,2) other] by simp
  have list: "fst (listNotesData e2 (?s'\<lparr>currentUserId := Some t2\<rparr>))
           = fst (listNotesData e2 (s\<lparr>currentUserId := Some t2\<rparr>))"
    by (rule listNotesData_view [of _ t2]) (simp_all add: assms(3) frame)
  have peel: "fst (peelNote e2 k (?s'\<lparr>currentUserId := Some t2\<rparr>))
           = fst (peelNote e2 k (s\<lparr>currentUserId := Some t2\<rparr>))"
    by (rule peelNote_view [of _ t2]) (simp_all add: assms(3) frame)
  have reads: "fst (listNotesData e1 s') = fst (listNotesData e1 s)
               \<and> fst (peelNote e1 key s') = fst (peelNote e1 key s)"
    if "currentUserId s' = Some t1 \<and> tenantView t1 s' = tenantView t1 s" for s'
    using that listNotesData_view [of s' t1 s e1] peelNote_view [of s' t1 s e1 key] assms(1,2)
    by simp
  show ?thesis
    using list peel frame reads
      removeNote_frame [OF assms(1,2) other, of e1 key]
      peelNote_fixed_state [OF assms(1,2), of e1 key]
      listNotesData_fixed_state [OF assms(1,2), of e1]
    by simp
qed

theorem partition_isolation_witness:
  "fst (listNotesData (offline 9 ''q'')
         ((snd (stickNote (offline 2 ''b'') ''work'' ''theirs''
                 ((snd (stickNote (offline 1 ''a'') ''work'' ''mine'' (session ''u2'')))
                    \<lparr>currentUserId := Some ''u1''\<rparr>)))
            \<lparr>currentUserId := Some ''u2''\<rparr>))
     = [(''work'', [\<lparr>note_id = ''a'', note_text = ''mine'', note_timestamp = 1\<rparr>])]
   \<and> fst (peelNote (offline 9 ''q'') ''work''
         ((snd (stickNote (offline 2 ''b'') ''work'' ''theirs''
                 ((snd (stickNote (offline 1 ''a'') ''work'' ''mine'' (session ''u2'')))
                    \<lparr>currentUserId := Some ''u1''\<rparr>)))
            \<lparr>currentUserId := Some ''u2''\<rparr>))
     = Inr (Some \<lparr>note_id = ''a'', note_text = ''mine'', note_timestamp = 1\<rparr>)"
proof -
  let ?s = "(snd (stickNote (offline 1 ''a'') ''work'' ''mine'' (session ''u2'')))
              \<lparr>currentUserId := Some ''u1''\<rparr>"
  have bound: "currentUserId ?s = Some ''u1''" by simp
  have ne: "''u1'' \<noteq> []" "''u2'' \<noteq> []" "''u1'' \<noteq> ''u2''" by simp_all
  have before: "fst (listNotesData (offline 9 ''q'') (?s\<lparr>currentUserId := Some ''u2''\<rparr>))
      = [(''work'', [\<lparr>note_id = ''a'', note_text = ''mine'', note_timestamp = 1\<rparr>])]"
    by code_simp
  have before': "fst (peelNote (offline 9 ''q'') ''work'' (?s\<lparr>currentUserId := Some ''u2''\<rparr>))
      = Inr (Some \<lparr>note_id = ''a'', note_text = ''mine'', note_timestamp = 1\<rparr>)"
    by code_simp
  from partition_isolation [OF bound ne, of "offline 9 ''q''" "offline 2 ''b''" "''work''" "''theirs''"
      "''work''"] before before'
  show ?thesis by simp
qed

section \<open>Adding a note and reading it back\<close>

lemma peelNote_in_memory:
  assumes "currentUserId s = Some t" "t \<noteq> []" "readsFromMemory e"
  shows "peelNote e key s = (getLatestNoteFromMemory (userPartition t) key s, s)"
  using assms
  by (auto simp: peelNote_resolved [OF getOrCreateUserId_fixed [OF assms(1,2)]
                    getUserPartitionKey_fixed [OF assms(1,2)]] readsFromMemory_def)

text \<open>
  Claim C1, as stated, fails: with the backend unreachable, a note \<open>b\<close> added under a key
  that already holds a note \<open>a\<close> of the same millisecond is not the one \<^verbatim>\<open>peelNote\<close>
  returns; the stable sort keeps \<open>a\<close> first.
\<close>

theorem roundtrip_same_millisecond_counterexample:
  "fst (peelNote (offline 9 ''q'') ''k''
         (snd (stickNote (offline 5 ''n2'') ''k'' ''b''
                (snd (stickNote (offline 5 ''n1'') ''k'' ''a'' (session ''u1''))))))
     = Inr (Some \<lparr>note_id = ''n1'', note_text = ''a'', note_timestamp = 5\<rparr>)
   \<and> note_text \<lparr>note_id = ''n1'', note_text = ''a'', note_timestamp = 5\<rparr> \<noteq> ''b''"
  by code_simp

text \<open>
  Claim C1, amended. Let both calls be served by the in-memory store (no client, or the
  durable call rejects), for any tenant, any text, and any key that is not a name a plain
  object inherits. If every note already stored under that key in the partition is
  strictly older than the new one, \<^verbatim>\<open>stickNote\<close> followed by \<^verbatim>\<open>peelNote\<close> returns the note
  just added, with the text just added.
\<close>

theorem roundtrip_in_memory:
  assumes "currentUserId s = Some t" "t \<noteq> []"
      and "storesInMemory e1" "readsFromMemory e2"
      and "\<not> inheritedName key"
      and "\<forall>x \<in> set (notesUnder (userPartition t) key s). note_timestamp x < now e1"
  shows "fst (peelNote e2 key (snd (stickNote e1 key text s))) = Inr (Some (memorised e1 text))
         \<and> note_text (memorised e1 text) = text"
proof -
  let ?pk = "userPartition t"
  let ?s' = "remember ?pk key (memorised e1 text) s"
  have stick: "stickNote e1 key text s = (Inr (), ?s')"
    by (rule stickNote_in_memory [OF assms(1,2,3,5)])
  have user: "currentUserId ?s' = Some t" by (simp add: assms(1))
  have "sortNewestFirst (notesUnder ?pk key ?s')
        = memorised e1 text # sortNewestFirst (notesUnder ?pk key s)"
    using assms(6) by (simp add: notesUnder_remember sortNewestFirst_snoc memorised_def)
  then have "getLatestNoteFromMemory ?pk key ?s' = Inr (Some (memorised e1 text))"
    by (simp add: getLatestNoteFromMemory_notes [OF assms(5)])
  then have "fst (peelNote e2 key (snd (stickNote e1 key text s))) = Inr (Some (memorised e1 text))"
    by (simp add: stick peelNote_in_memory [OF user assms(2,4)])
  moreover have "note_text (memorised e1 text) = text"
    by (simp add: memorised_def)
  ultimately show ?thesis by simp
qed

theorem roundtrip_in_memory_witness:
  "fst (peelNote (offline 9 ''q'') ''work''
         (snd (stickNote (offline 6 ''n2'') ''work'' ''standup at 9''
                (snd (stickNote (offline 5 ''n1'') ''work'' ''old'' (session ''u1''))))))
     = Inr (Some \<lparr>note_id = ''n2'', note_text = ''standup at 9'', note_timestamp = 6\<rparr>)"
proof -
  let ?s = "snd (stickNote (offline 5 ''n1'') ''work'' ''old'' (session ''u1''))"
  have user: "currentUserId ?s = Some ''u1''" by code_simp
  have t: "''u1'' \<noteq> []" by simp
  have mem: "storesInMemory (offline 6 ''n2'')" "readsFromMemory (offline 9 ''q'')"
    by (simp_all add: storesInMemory_def readsFromMemory_def offline_def)
  have key: "\<not> inheritedName ''work''"
    by (simp add: inheritedName_def object_prototype_def)
  have stored: "notesUnder (userPartition ''u1'') ''work'' ?s
                = [\<lparr>note_id = ''n1'', note_text = ''old'', note_timestamp = 5\<rparr>]"
    by code_simp
  have older: "\<forall>x \<in> set (notesUnder (userPartition ''u1'') ''work'' ?s).
                 note_timestamp x < now (offline 6 ''n2'')"
    unfolding stored by (simp add: offline_def)
  from roundtrip_in_memory [OF user t mem key older, of "''standup at 9''"]
  show ?thesis by (simp add: memorised_def offline_def)
qed

section \<open>Which note is the latest\<close>


lemma leadsScan_single: "leadsScan f [x] x"
  unfolding leadsScan_def by (intro exI [of _ "[]"]) simp

lemma leadsScan_front:
  assumes "\<forall>y \<in> set xs. f y \<le> f x"
  shows "leadsScan f (x # xs) x"
  unfolding leadsScan_def using assms by (intro exI [of _ "[]"] exI [of _ xs]) simp

lemma leadsScan_bounds:
  assumes "leadsScan f xs r"
  shows "r \<in> set xs \<and> (\<forall>y \<in> set xs. f y \<le> f r)"
  using assms unfolding leadsScan_def by (auto simp: less_imp_le)

lemma leadsScan_behind:
  assumes "leadsScan f xs r" "f x < f r"
  shows "leadsScan f (x # xs) r"
proof -
  from assms(1) obtain before after where d: "xs = before @ r # after"
    "\<forall>y \<in> set before. f y < f r" "\<forall>y \<in> set after. f y \<le> f r"
    unfolding leadsScan_def by blast
  show ?thesis
    unfolding leadsScan_def
    using d assms(2) by (intro exI [of _ "x # before"] exI [of _ after]) simp
qed

lemma leadsScan_firstNewest:
  assumes "leadsScan f xs r"
  shows "firstNewest f xs = Some r"
proof -
  from assms obtain before after where d: "xs = before @ r # after"
    "\<forall>y \<in> set before. f y < f r" "\<forall>y \<in> set after. f y \<le> f r"
    unfolding leadsScan_def by blast
  let ?P = "\<lambda>x. \<forall>y \<in> set xs. f y \<le> f x"
  have r: "?P r" using d by (auto simp: less_imp_le)
  have "\<not> ?P x" if "x \<in> set before" for x
    using that d by (auto simp: not_le)
  then have "List.find ?P (before @ r # after) = Some r"
    using r by (induction before) auto
  then show ?thesis by (simp add: firstNewest_def d(1))
qed

text \<open>The loop of \<^verbatim>\<open>peelNote\<close>, when every timestamp is a valid date.\<close>

lemma scanLatest_leads:
  assumes "\<forall>x \<in> set (l # xs). entity_timestamp x \<noteq> None"
  shows "\<exists>r. scanLatest xs (Some l) = Some r
             \<and> leadsScan (\<lambda>x. validTimestamp e (entity_timestamp x)) (l # xs) r"
  using assms
proof (induction xs arbitrary: l rule: rev_induct)
  case Nil
  then show ?case by (simp add: leadsScan_single)
next
  case (snoc x xs)
  let ?f = "\<lambda>x. validTimestamp e (entity_timestamp x)"
  from snoc.prems have valid: "\<forall>y \<in> set (l # xs). entity_timestamp y \<noteq> None" by simp
  from snoc.IH [OF valid] obtain r where r: "scanLatest xs (Some l) = Some r"
    "leadsScan ?f (l # xs) r" by blast
  have app: "scanLatest (ys @ [x]) acc
             = (case scanLatest ys acc of
                  None \<Rightarrow> Some x
                | Some m \<Rightarrow> if replacesLatest m x then Some x else Some m)" for ys acc
    by (induction ys arbitrary: acc) simp_all
  from leadsScan_bounds [OF r(2)] have rin: "r \<in> set (l # xs)"
    and top: "\<forall>y \<in> set (l # xs). ?f y \<le> ?f r" by simp_all
  from rin valid snoc.prems obtain tr tx where ts: "entity_timestamp r = Some tr"
    "entity_timestamp x = Some tx" by auto
  show ?case
  proof (cases "tr < tx")
    case True
    have "leadsScan ?f ((l # xs) @ [x]) x"
      unfolding leadsScan_def
      using top True ts
      by (intro exI [of _ "l # xs"] exI [of _ "[]"]) (auto simp: validTimestamp_def)
    with True ts r(1) show ?thesis
      by (simp add: app replacesLatest_def)
  next
    case False
    from r(2) obtain before after where d: "l # xs = before @ r # after"
      "\<forall>y \<in> set before. ?f y < ?f r" "\<forall>y \<in> set after. ?f y \<le> ?f r"
      unfolding leadsScan_def by blast
    have "leadsScan ?f ((l # xs) @ [x]) r"
      unfolding leadsScan_def
      using d False ts
      by (intro exI [of _ before] exI [of _ "after @ [x]"]) (auto simp: validTimestamp_def)
    with False ts r(1) show ?thesis
      by (simp add: app replacesLatest_def)
  qed
qed

lemma scanLatest_firstNewest:
  assumes "\<forall>x \<in> set xs. entity_timestamp x \<noteq> None"
  shows "scanLatest xs None = firstNewest (\<lambda>x. validTimestamp e (entity_timestamp x)) xs"
proof (cases xs)
  case Nil
  then show ?thesis by (simp add: firstNewest_def)
next
  case (Cons l ys)
  with assms scanLatest_leads [of l ys e] obtain r where
    "scanLatest ys (Some l) = Some r"
    "leadsScan (\<lambda>x. validTimestamp e (entity_timestamp x)) (l # ys) r" by auto
  with Cons show ?thesis by (simp add: leadsScan_firstNewest)
qed

text \<open>The head of the stable sort.\<close>

lemma sortNewestFirst_leads:
  "xs \<noteq> [] \<Longrightarrow> \<exists>r rest. sortNewestFirst xs = r # rest \<and> leadsScan note_timestamp xs r"
proof (induction xs)
  case Nil
  then show ?case by simp
next
  case (Cons x xs)
  show ?case
  proof (cases "xs = []")
    case True
    then show ?thesis by (simp add: sortNewestFirst_def leadsScan_single)
  next
    case False
    from Cons.IH [OF this] obtain r rest where r: "sortNewestFirst xs = r # rest"
      "leadsScan note_timestamp xs r" by blast
    have step: "sortNewestFirst (x # xs) = insort_key (\<lambda>n. - note_timestamp n) x (sortNewestFirst xs)"
      by (simp add: sortNewestFirst_def)
    show ?thesis
    proof (cases "note_timestamp r \<le> note_timestamp x")
      case True
      with leadsScan_bounds [OF r(2)] have "\<forall>y \<in> set xs. note_timestamp y \<le> note_timestamp x"
        by auto
      from leadsScan_front [of xs note_timestamp x, OF this] True r(1) show ?thesis
        by (simp add: step)
    next
      case False
      then have "note_timestamp x < note_timestamp r" by simp
      from leadsScan_behind [OF r(2) this] False r(1) show ?thesis
        by (simp add: step)
    qed
  qed
qed

lemma sortNewestFirst_firstNewest:
  "(case sortNewestFirst xs of [] \<Rightarrow> None | n # ns \<Rightarrow> Some n) = firstNewest note_timestamp xs"
proof (cases "xs = []")
  case True
  then show ?thesis by (simp add: sortNewestFirst_def firstNewest_def)
next
  case False
  from sortNewestFirst_leads [OF this] obtain r rest where
    "sortNewestFirst xs = r # rest" "leadsScan note_timestamp xs r" by blast
  then show ?thesis by (simp add: leadsScan_firstNewest)
qed

text \<open>
  The loop of \<^verbatim>\<open>peelNote\<close> on any scan: a row without a valid date never replaces one
  that has a valid date, and is replaced by whatever row comes next.
\<close>

lemma scanLatest_skips:
  assumes "entity_timestamp l \<noteq> None"
  shows "scanLatest xs (Some l) = scanLatest (filter (\<lambda>x. entity_timestamp x \<noteq> None) xs) (Some l)"
  using assms
proof (induction xs arbitrary: l)
  case Nil
  then show ?case by simp
next
  case (Cons x xs)
  show ?case
  proof (cases "entity_timestamp x")
    case None
    with Cons.prems have "\<not> replacesLatest l x" by (auto simp: replacesLatest_def)
    with None Cons.IH [OF Cons.prems] show ?thesis by simp
  next
    case (Some tx)
    show ?thesis
    proof (cases "replacesLatest l x")
      case True
      with Some Cons.IH [of x] show ?thesis by simp
    next
      case False
      with Some Cons.IH [OF Cons.prems] show ?thesis by simp
    qed
  qed
qed

lemma scanLatest_undated:
  assumes "entity_timestamp l = None"
  shows "scanLatest xs (Some l) =
     (if filter (\<lambda>x. entity_timestamp x \<noteq> None) xs = [] then Some (last (l # xs))
      else firstNewest (\<lambda>x. validTimestamp e (entity_timestamp x))
             (filter (\<lambda>x. entity_timestamp x \<noteq> None) xs))"
  using assms
proof (induction xs arbitrary: l)
  case Nil
  then show ?case by simp
next
  case (Cons x xs)
  let ?dated = "filter (\<lambda>x. entity_timestamp x \<noteq> None) xs"
  from Cons.prems have step: "scanLatest (x # xs) (Some l) = scanLatest xs (Some x)"
    by (simp add: replacesLatest_def)
  show ?case
  proof (cases "entity_timestamp x")
    case None
    with Cons.IH [of x] step show ?thesis by simp
  next
    case (Some tx)
    then have "scanLatest xs (Some x) = scanLatest ?dated (Some x)"
      by (intro scanLatest_skips) simp
    also have "\<dots> = scanLatest (x # ?dated) None" by simp
    also have "\<dots> = firstNewest (\<lambda>x. validTimestamp e (entity_timestamp x)) (x # ?dated)"
      using Some by (intro scanLatest_firstNewest) simp
    finally show ?thesis using Some step by simp
  qed
qed

lemma scanLatest_any:
  "scanLatest xs None =
     (if filter (\<lambda>x. entity_timestamp x \<noteq> None) xs \<noteq> []
      then firstNewest (\<lambda>x. validTimestamp e (entity_timestamp x))
             (filter (\<lambda>x. entity_timestamp x \<noteq> None) xs)
      else if xs = [] then None else Some (last xs))"
proof (cases xs)
  case Nil
  then show ?thesis by simp
next
  case (Cons l ys)
  let ?dated = "filter (\<lambda>x. entity_timestamp x \<noteq> None) ys"
  show ?thesis
  proof (cases "entity_timestamp l")
    case None
    with scanLatest_undated [of l ys e] Cons show ?thesis by simp
  next
    case (Some tl)
    then have "scanLatest ys (Some l) = scanLatest ?dated (Some l)"
      by (intro scanLatest_skips) simp
    also have "\<dots> = scanLatest (l # ?dated) None" by simp
    also have "\<dots> = firstNewest (\<lambda>x. validTimestamp e (entity_timestamp x)) (l # ?dated)"
      using Some by (intro scanLatest_firstNewest) simp
    finally show ?thesis using Some Cons by simp
  qed
qed

lemma peelNote_in_table:
  assumes "currentUserId s = Some t" "t \<noteq> []" "readsTable e"
  shows "fst (peelNote e key s) =
     Inr (map_option (entityNote e) (scanLatest (listEntities (userPartition t) (Some key) (tableRows s)) None))"
  using assms
  by (simp add: peelNote_resolved [OF getOrCreateUserId_fixed [OF assms(1,2)]
                  getUserPartitionKey_fixed [OF assms(1,2)]] readsTable_def entityNote_def
           split: option.splits)

text \<open>
  Claim C2, as stated, fails on the tie rule and on the match by id. Two entities of one
  key and one timestamp: \<^verbatim>\<open>peelNote\<close> returns the first of the scan, where the claim
  names the last. And in the in-memory path a lookup by the id of a stored note finds
  nothing.
\<close>

theorem peelNote_tie_counterexample:
  "fst (peelNote (healthy 9 ''q'') ''k''
         \<lparr>currentUserId = Some ''u1'', memoryNotes = [],
          tableRows =
            [\<lparr>partitionKey = ''user-u1'', rowKey = ''r1'', noteKey = Some ''k'',
              entity_text = ''a'', entity_timestamp = Some 5\<rparr>,
             \<lparr>partitionKey = ''user-u1'', rowKey = ''r2'', noteKey = Some ''k'',
              entity_text = ''b'', entity_timestamp = Some 5\<rparr>]\<rparr>)
     = Inr (Some \<lparr>note_id = ''r1'', note_text = ''a'', note_timestamp = 5\<rparr>)
   \<and> lastNewest note_timestamp
         [\<lparr>note_id = ''r1'', note_text = ''a'', note_timestamp = 5\<rparr>,
          \<lparr>note_id = ''r2'', note_text = ''b'', note_timestamp = 5\<rparr>]
     = Some \<lparr>note_id = ''r2'', note_text = ''b'', note_timestamp = 5\<rparr>
   \<and> fst (peelNote (offline 9 ''q'') ''n1''
         (snd (stickNote (offline 5 ''n1'') ''work'' ''a'' (session ''u1''))))
     = Inr None"
  by code_simp

text \<open>
  Claim C2, amended. For a session bound to a tenant. When \<^verbatim>\<open>peelNote\<close> reads the table,
  the lookup key not being the row key of a row of the partition, it considers exactly
  the rows of the partition whose \<open>noteKey\<close> equals the lookup key; of those with a valid
  date it returns the one with the maximal timestamp, the first of the scan when several
  share it, and when none has a valid date it returns the last of the scan. When it
  reads the in-memory store (the key not being a name a plain object inherits), it
  considers exactly the notes stored under the logical key, ids are not matched, and it
  returns the one with the maximal timestamp, again the first stored when several share
  it.
\<close>

theorem peelNote_returns_first_newest:
  assumes "currentUserId s = Some t" "t \<noteq> []"
  shows "(readsTable e
          \<and> (\<forall>r \<in> set (tableRows s). partitionKey r = userPartition t \<longrightarrow> rowKey r \<noteq> key)
          \<longrightarrow> fst (peelNote e key s)
              = Inr (map_option (entityNote e)
                      (let scan = filter (\<lambda>r. partitionKey r = userPartition t \<and> noteKey r = Some key)
                                    (tableRows s);
                           dated = filter (\<lambda>r. entity_timestamp r \<noteq> None) scan
                       in if dated \<noteq> [] then firstNewest (\<lambda>r. note_timestamp (entityNote e r)) dated
                          else if scan = [] then None
                          else Some (last scan))))
       \<and> (readsFromMemory m \<and> \<not> inheritedName key
          \<longrightarrow> fst (peelNote m key s)
              = Inr (firstNewest note_timestamp (notesUnder (userPartition t) key s)))"
proof -
  let ?scan = "filter (\<lambda>r. partitionKey r = userPartition t \<and> noteKey r = Some key) (tableRows s)"
  have scan: "listEntities (userPartition t) (Some key) (tableRows s) = ?scan"
    by (simp add: listEntities_def)
  have "fst (peelNote e key s)
        = Inr (map_option (entityNote e)
                 (let scan = ?scan; dated = filter (\<lambda>r. entity_timestamp r \<noteq> None) scan
                  in if dated \<noteq> [] then firstNewest (\<lambda>r. note_timestamp (entityNote e r)) dated
                     else if scan = [] then None
                     else Some (last scan)))"
    if table: "readsTable e"
    using scanLatest_any [of ?scan e]
    by (simp add: peelNote_in_table [OF assms table] scan entityNote_def Let_def)
  moreover have "fst (peelNote m key s)
        = Inr (firstNewest note_timestamp (notesUnder (userPartition t) key s))"
    if "readsFromMemory m" "\<not> inheritedName key"
    using that
    by (simp add: peelNote_in_memory [OF assms] getLatestNoteFromMemory_notes
          sortNewestFirst_firstNewest)
  ultimately show ?thesis by simp
qed

theorem peelNote_returns_first_newest_witness:
  "fst (peelNote (healthy 9 ''q'') ''k''
         \<lparr>currentUserId = Some ''u1'', memoryNotes = [],
          tableRows =
            [\<lparr>partitionKey = ''user-u1'', rowKey = ''r1'', noteKey = Some ''k'',
              entity_text = ''a'', entity_timestamp = Some 5\<rparr>,
             \<lparr>partitionKey = ''user-u1'', rowKey = ''r2'', noteKey = Some ''k'',
              entity_text = ''b'', entity_timestamp = Some 7\<rparr>,
             \<lparr>partitionKey = ''user-u1'', rowKey = ''r3'', noteKey = Some ''k'',
              entity_text = ''c'', entity_timestamp = None\<rparr>,
             \<lparr>partitionKey = ''user-u1'', rowKey = ''r4'', noteKey = Some ''k'',
              entity_text = ''d'', entity_timestamp = Some 7\<rparr>,
             \<lparr>partitionKey = ''user-u1'', rowKey = ''r5'', noteKey = Some ''other'',
              entity_text = ''e'', entity_timestamp = Some 8\<rparr>]\<rparr>)
     = Inr (Some \<lparr>note_id = ''r2'', note_text = ''b'', note_timestamp = 7\<rparr>)
   \<and> fst (peelNote (healthy 9 ''q'') ''k''
         \<lparr>currentUserId = Some ''u1'', memoryNotes = [],
          tableRows =
            [\<lparr>partitionKey = ''user-u1'', rowKey = ''r1'', noteKey = Some ''k'',
              entity_text = ''a'', entity_timestamp = None\<rparr>,
             \<lparr>partitionKey = ''user-u1'', rowKey = ''r2'', noteKey = Some ''k'',
              entity_text = ''b'', entity_timestamp = None\<rparr>]\<rparr>)
     = Inr (Some \<lparr>note_id = ''r2'', note_text = ''b'', note_timestamp = 9\<rparr>)
   \<and> fst (peelNote (offline 9 ''q'') ''k''
         \<lparr>currentUserId = Some ''u1'',
          memoryNotes = [(''user-u1'', [(''k'',
            [\<lparr>note_id = ''n1'', note_text = ''a'', note_timestamp = 5\<rparr>,
             \<lparr>note_id = ''n2'', note_text = ''b'', note_timestamp = 7\<rparr>,
             \<lparr>note_id = ''n3'', note_text = ''c'', note_timestamp = 7\<rparr>])])],
          tableRows = []\<rparr>)
     = Inr (Some \<lparr>note_id = ''n2'', note_text = ''b'', note_timestamp = 7\<rparr>)"
proof -
  let ?d = "\<lparr>currentUserId = Some ''u1'', memoryNotes = [],
          tableRows =
            [\<lparr>partitionKey = ''user-u1'', rowKey = ''r1'', noteKey = Some ''k'',
              entity_text = ''a'', entity_timestamp = Some 5\<rparr>,
             \<lparr>partitionKey = ''user-u1'', rowKey = ''r2'', noteKey = Some ''k'',
              entity_text = ''b'', entity_timestamp = Some 7\<rparr>,
             \<lparr>partitionKey = ''user-u1'', rowKey = ''r3'', noteKey = Some ''k'',
              entity_text = ''c'', entity_timestamp = None\<rparr>,
             \<lparr>partitionKey = ''user-u1'', rowKey = ''r4'', noteKey = Some ''k'',
              entity_text = ''d'', entity_timestamp = Some 7\<rparr>,
             \<lparr>partitionKey = ''user-u1'', rowKey = ''r5'', noteKey = Some ''other'',
              entity_text = ''e'', entity_timestamp = Some 8\<rparr>]\<rparr>"
  let ?u = "\<lparr>currentUserId = Some ''u1'', memoryNotes = [],
          tableRows =
            [\<lparr>partitionKey = ''user-u1'', rowKey = ''r1'', noteKey = Some ''k'',
              entity_text = ''a'', entity_timestamp = None\<rparr>,
             \<lparr>partitionKey = ''user-u1'', rowKey = ''r2'', noteKey = Some ''k'',
              entity_text = ''b'', entity_timestamp = None\<rparr>]\<rparr>"
  let ?m = "\<lparr>currentUserId = Some ''u1'',
          memoryNotes = [(''user-u1'', [(''k'',
            [\<lparr>note_id = ''n1'', note_text = ''a'', note_timestamp = 5\<rparr>,
             \<lparr>note_id = ''n2'', note_text = ''b'', note_timestamp = 7\<rparr>,
             \<lparr>note_id = ''n3'', note_text = ''c'', note_timestamp = 7\<rparr>])])],
          tableRows = []\<rparr>"
  have t: "''u1'' \<noteq> []" by simp
  have modes: "readsTable (healthy 9 ''q'')" "readsFromMemory (offline 9 ''q'')"
    by (simp_all add: readsTable_def readsFromMemory_def healthy_def offline_def)
  have key: "\<not> inheritedName ''k''"
    by (simp add: inheritedName_def object_prototype_def)
  have d: "currentUserId ?d = Some ''u1''" and u: "currentUserId ?u = Some ''u1''"
    and m: "currentUserId ?m = Some ''u1''" by simp_all
  have now: "now (healthy 9 ''q'') = 9" by (simp add: healthy_def)
  from peelNote_returns_first_newest [OF d t, of "healthy 9 ''q''" "''k''"] modes
  have "fst (peelNote (healthy 9 ''q'') ''k'' ?d)
        = Inr (Some \<lparr>note_id = ''r2'', note_text = ''b'', note_timestamp = 7\<rparr>)"
    by (simp add: firstNewest_def entityNote_def validTimestamp_def userPartition_def)
  moreover
  from peelNote_returns_first_newest [OF u t, of "healthy 9 ''q''" "''k''"] modes
  have "fst (peelNote (healthy 9 ''q'') ''k'' ?u)
        = Inr (Some \<lparr>note_id = ''r2'', note_text = ''b'', note_timestamp = 9\<rparr>)"
    by (simp add: firstNewest_def entityNote_def validTimestamp_def userPartition_def now)
  moreover
  from peelNote_returns_first_newest [OF m t, of _ "''k''" "offline 9 ''q''"] modes key
  have "fst (peelNote (offline 9 ''q'') ''k'' ?m)
        = Inr (Some \<lparr>note_id = ''n2'', note_text = ''b'', note_timestamp = 7\<rparr>)"
    by (simp add: firstNewest_def notesUnder_def partitionNotes_def userPartition_def)
  ultimately show ?thesis by simp
qed

section \<open>Removing a logical group\<close>


lemma deleteEach_rows:
  "deleteEach e pk entities rows
     = filter (\<lambda>r. \<not> (partitionKey r = pk
                        \<and> rowKey r \<in> rowKey ` {x \<in> set entities. \<not> deleteThrows e (rowKey x)})) rows"
proof (induction entities arbitrary: rows)
  case Nil
  then show ?case by simp
next
  case (Cons x xs)
  show ?case
  proof (cases "deleteThrows e (rowKey x)")
    case True
    then have "{y \<in> set (x # xs). \<not> deleteThrows e (rowKey y)} = {y \<in> set xs. \<not> deleteThrows e (rowKey y)}"
      by auto
    with True Cons.IH [of rows] show ?thesis by simp
  next
    case False
    then have "rowKey ` {y \<in> set (x # xs). \<not> deleteThrows e (rowKey y)}
               = insert (rowKey x) (rowKey ` {y \<in> set xs. \<not> deleteThrows e (rowKey y)})"
      by auto
    with False Cons.IH [of "deleteEntity pk (rowKey x) rows"] show ?thesis
      by (auto simp: deleteEntity_def intro: filter_cong)
  qed
qed

lemma removeNote_in_table:
  assumes "currentUserId s = Some t" "t \<noteq> []" "readsTable e"
  shows "removeNote e key s =
     (listEntities (userPartition t) (Some key) (tableRows s) \<noteq> [],
      s\<lparr>tableRows := deleteEach e (userPartition t)
           (listEntities (userPartition t) (Some key) (tableRows s)) (tableRows s)\<rparr>)"
  using assms
  by (simp add: removeNote_resolved [OF getOrCreateUserId_fixed [OF assms(1,2)]
                  getUserPartitionKey_fixed [OF assms(1,2)]] readsTable_def Let_def)

lemma removeNote_in_memory:
  assumes "currentUserId s = Some t" "t \<noteq> []" "readsFromMemory e"
  shows "\<exists>rows. removeNote e key s = removeFromMemory (userPartition t) key (s\<lparr>tableRows := rows\<rparr>)
               \<and> (\<not> client e \<longrightarrow> rows = tableRows s)"
  using assms
  by (auto simp: removeNote_resolved [OF getOrCreateUserId_fixed [OF assms(1,2)]
                  getUserPartitionKey_fixed [OF assms(1,2)]] readsFromMemory_def Let_def)

lemma removeFromMemory_group:
  assumes "\<not> inheritedName key"
  shows "fst (removeFromMemory pk key s) = (map_of (partitionNotes pk s) key \<noteq> None)
       \<and> partitionNotes pk (snd (removeFromMemory pk key s)) = AList.delete key (partitionNotes pk s)
       \<and> notesUnder pk key (snd (removeFromMemory pk key s)) = []
       \<and> (\<forall>k. k \<noteq> key \<longrightarrow> notesUnder pk k (snd (removeFromMemory pk key s)) = notesUnder pk k s)"
proof (cases "map_of (memoryNotes s) pk")
  case None
  then show ?thesis
    by (simp add: removeFromMemory_def partitionNotes_def notesUnder_def)
next
  case (Some u)
  show ?thesis
  proof (cases "map_of u key")
    case None
    then have "key \<notin> fst ` set u" by (simp add: map_of_eq_None_iff)
    with None Some assms show ?thesis
      by (simp add: removeFromMemory_def partitionNotes_def notesUnder_def getProperty_own)
  next
    case (Some xs)
    with \<open>map_of (memoryNotes s) pk = Some u\<close> assms show ?thesis
      by (simp add: removeFromMemory_def partitionNotes_def notesUnder_def getProperty_own
            update_conv' delete_conv')
  qed
qed

lemma partitionNotes_rows [simp]:
  "partitionNotes pk (s\<lparr>tableRows := rows\<rparr>) = partitionNotes pk s"
  "notesUnder pk key (s\<lparr>tableRows := rows\<rparr>) = notesUnder pk key s"
  by (simp_all add: partitionNotes_def notesUnder_def)

lemma removeNote_memory_group:
  assumes "currentUserId s = Some t" "t \<noteq> []" "readsFromMemory e" "\<not> inheritedName key"
  shows "fst (removeNote e key s) = (map_of (partitionNotes (userPartition t) s) key \<noteq> None)
       \<and> partitionNotes (userPartition t) (snd (removeNote e key s))
           = AList.delete key (partitionNotes (userPartition t) s)
       \<and> notesUnder (userPartition t) key (snd (removeNote e key s)) = []
       \<and> (\<forall>k. k \<noteq> key \<longrightarrow> notesUnder (userPartition t) k (snd (removeNote e key s))
                               = notesUnder (userPartition t) k s)
       \<and> currentUserId (snd (removeNote e key s)) = Some t"
proof -
  from removeNote_in_memory [OF assms(1-3), of key] obtain rows where
    r: "removeNote e key s = removeFromMemory (userPartition t) key (s\<lparr>tableRows := rows\<rparr>)"
    by blast
  from removeFromMemory_group [OF assms(4), of "userPartition t" "s\<lparr>tableRows := rows\<rparr>"]
    removeFromMemory_frame [of "userPartition t" key "s\<lparr>tableRows := rows\<rparr>"] assms(1)
  show ?thesis by (simp add: r)
qed

lemma listEntities_after_delete:
  assumes "\<forall>rk. \<not> deleteThrows e rk"
  shows "listEntities pk (Some key)
           (deleteEach e pk (listEntities pk (Some key) rows) rows) = []"
proof -
  have "r \<in> set (listEntities pk (Some key) rows)
        \<Longrightarrow> rowKey r \<in> rowKey ` {x \<in> set (listEntities pk (Some key) rows). \<not> deleteThrows e (rowKey x)}"
    for r using assms by auto
  then show ?thesis
    unfolding deleteEach_rows
    by (auto simp: listEntities_def filter_empty_conv)
qed

lemma entry_iff_notes:
  assumes "nonEmptyGroups s"
  shows "(map_of (partitionNotes pk s) key \<noteq> None) = (notesUnder pk key s \<noteq> [])"
proof -
  have "nonEmptyArrays (partitionNotes pk s)"
    using assms
    by (auto simp: partitionNotes_def nonEmptyGroups_def nonEmptyArrays_Nil
             split: option.splits dest: nonEmptyGroups_lookup)
  then show ?thesis
    by (auto simp: notesUnder_def split: option.splits dest: nonEmptyArrays_lookup)
qed

lemma deleteEach_deleted:
  "deleteEach e pk entities rows
     = filter (\<lambda>r. \<not> (partitionKey r = pk \<and> rowKey r \<in> set (map rowKey entities)
                        \<and> \<not> deleteThrows e (rowKey r))) rows"
  unfolding deleteEach_rows by (rule filter_cong) auto

lemma remove_after_two_in_memory:
  assumes tenant: "currentUserId s = Some t" "t \<noteq> []"
      and key: "\<not> inheritedName key"
      and mem: "storesInMemory e1" "storesInMemory e2" "readsFromMemory m" "readsFromMemory m'"
  shows "fst (removeNote m key (snd (stickNote e2 key text2 (snd (stickNote e1 key text1 s)))))
         \<and> fst (peelNote m' key (snd (removeNote m key
                  (snd (stickNote e2 key text2 (snd (stickNote e1 key text1 s))))))) = Inr None"
proof -
  let ?pk = "userPartition t"
  define s1 where "s1 = remember ?pk key (memorised e1 text1) s"
  define s2 where "s2 = remember ?pk key (memorised e2 text2) s1"
  have user: "currentUserId s1 = Some t" "currentUserId s2 = Some t"
    by (simp_all add: s1_def s2_def tenant)
  have st1: "stickNote e1 key text1 s = (Inr (), s1)"
    unfolding s1_def by (rule stickNote_in_memory [OF tenant mem(1) key])
  have st2: "stickNote e2 key text2 s1 = (Inr (), s2)"
    unfolding s2_def by (rule stickNote_in_memory [OF user(1) tenant(2) mem(2) key])
  have entry: "map_of (partitionNotes ?pk s2) key \<noteq> None"
    by (simp add: s2_def partitionNotes_remember update_conv')
  note rm = removeNote_memory_group [OF user(2) tenant(2) mem(3) key]
  from rm entry have found: "fst (removeNote m key s2)" by simp
  from rm have gone: "notesUnder ?pk key (snd (removeNote m key s2)) = []"
    and user3: "currentUserId (snd (removeNote m key s2)) = Some t" by simp_all
  have "fst (peelNote m' key (snd (removeNote m key s2))) = Inr None"
    by (simp add: peelNote_in_memory [OF user3 tenant(2) mem(4)]
          getLatestNoteFromMemory_notes [OF key] gone sortNewestFirst_def)
  with found show ?thesis by (simp add: st1 st2)
qed

lemma remove_after_two_in_table:
  assumes tenant: "currentUserId s = Some t" "t \<noteq> []"
      and table: "reachesTable d1" "reachesTable d2" "readsTable d" "readsTable d'"
      and deletes: "\<forall>rk. \<not> deleteThrows d rk"
  shows "fst (removeNote d key (snd (stickNote d2 key text2 (snd (stickNote d1 key text1 s)))))
         \<and> fst (peelNote d' key (snd (removeNote d key
                  (snd (stickNote d2 key text2 (snd (stickNote d1 key text1 s))))))) = Inr None"
proof -
  let ?pk = "userPartition t"
  define s1 where "s1 = s\<lparr>tableRows := upsertEntity (serviceTime d1) (stored d1 ?pk key text1) (tableRows s)\<rparr>"
  define s2 where "s2 = s1\<lparr>tableRows := upsertEntity (serviceTime d2) (stored d2 ?pk key text2) (tableRows s1)\<rparr>"
  define s3 where "s3 = s2\<lparr>tableRows := deleteEach d ?pk
           (listEntities ?pk (Some key) (tableRows s2)) (tableRows s2)\<rparr>"
  have user: "currentUserId s1 = Some t" "currentUserId s2 = Some t" "currentUserId s3 = Some t"
    by (simp_all add: s1_def s2_def s3_def tenant)
  have st1: "stickNote d1 key text1 s = (Inr (), s1)"
    unfolding s1_def by (rule stickNote_in_table [OF tenant table(1)])
  have st2: "stickNote d2 key text2 s1 = (Inr (), s2)"
    unfolding s2_def by (rule stickNote_in_table [OF user(1) tenant(2) table(2)])
  have "stored d2 ?pk key text2 \<in> set (tableRows s2)"
    using upsertEntity_member [where entity = "stored d2 ?pk key text2" and w = "serviceTime d2"
        and rows = "tableRows s1"]
    by (simp add: s2_def)
  then have "stored d2 ?pk key text2 \<in> set (listEntities ?pk (Some key) (tableRows s2))"
    by (simp add: listEntities_def stored_def)
  then have found: "listEntities ?pk (Some key) (tableRows s2) \<noteq> []" by auto
  have rm: "removeNote d key s2 = (True, s3)"
    using found by (simp add: removeNote_in_table [OF user(2) tenant(2) table(3)] s3_def)
  have gone: "listEntities ?pk (Some key) (tableRows s3) = []"
    by (simp add: s3_def listEntities_after_delete [OF deletes])
  have "fst (peelNote d' key s3) = Inr None"
    by (simp add: peelNote_in_table [OF user(3) tenant(2) table(4)] gone)
  then show ?thesis by (simp add: st1 st2 rm)
qed

text \<open>
  Claim C3, as stated, fails. In the in-memory path a key that equals the id of a stored
  note matches nothing: \<^verbatim>\<open>removeNote\<close> answers false and the note stays. In the durable
  path the answer is true as soon as an entity matched, also when its deletion was
  rejected and nothing was deleted.
\<close>

theorem removeNote_counterexample:
  "removeNote (offline 9 ''q'') ''n1''
      \<lparr>currentUserId = Some ''u1'',
       memoryNotes = [(''user-u1'', [(''work'',
          [\<lparr>note_id = ''n1'', note_text = ''a'', note_timestamp = 5\<rparr>])])],
       tableRows = []\<rparr>
     = (False,
        \<lparr>currentUserId = Some ''u1'',
         memoryNotes = [(''user-u1'', [(''work'',
            [\<lparr>note_id = ''n1'', note_text = ''a'', note_timestamp = 5\<rparr>])])],
         tableRows = []\<rparr>)
   \<and> removeNote ((healthy 9 ''q'')\<lparr>deleteThrows := (\<lambda>rk. True)\<rparr>) ''k''
      \<lparr>currentUserId = Some ''u1'', memoryNotes = [],
       tableRows = [\<lparr>partitionKey = ''user-u1'', rowKey = ''r1'', noteKey = Some ''k'',
                     entity_text = ''a'', entity_timestamp = Some 5\<rparr>]\<rparr>
     = (True,
        \<lparr>currentUserId = Some ''u1'', memoryNotes = [],
         tableRows = [\<lparr>partitionKey = ''user-u1'', rowKey = ''r1'', noteKey = Some ''k'',
                       entity_text = ''a'', entity_timestamp = Some 5\<rparr>]\<rparr>)"
  by code_simp

text \<open>
  Claim C3, amended. For a session bound to a tenant. When \<^verbatim>\<open>removeNote\<close> reads the table,
  the key not being the row key of a row of the partition, it answers whether an entity
  of the partition has the key as its \<open>noteKey\<close>, and it deletes every row of the partition
  that has the row key of such an entity (all of the group, not only the newest) unless
  the deletion for that row key is rejected; the in-memory store is not touched. When it
  falls back to the in-memory store, for a key that is not a name a plain object inherits, it answers
  whether the logical key has an entry (that is, under the store's invariant, whether a
  note is deleted), deletes the whole entry and nothing else; ids are not matched.
  After two notes added under one key, \<^verbatim>\<open>removeNote\<close> answers true and \<^verbatim>\<open>peelNote\<close> then
  finds nothing: with all four calls in the in-memory store, and with all four on the
  table when no deletion is rejected.
\<close>

theorem removeNote_removes_group:
  assumes "currentUserId s = Some t" "t \<noteq> []"
  shows "(readsTable e
          \<and> (\<forall>r \<in> set (tableRows s). partitionKey r = userPartition t \<longrightarrow> rowKey r \<noteq> key)
          \<longrightarrow>
            fst (removeNote e key s)
              = (filter (\<lambda>r. partitionKey r = userPartition t \<and> noteKey r = Some key)
                   (tableRows s) \<noteq> [])
          \<and> tableRows (snd (removeNote e key s))
              = filter (\<lambda>r. \<not> (partitionKey r = userPartition t
                    \<and> rowKey r \<in> set (map rowKey
                          (filter (\<lambda>r. partitionKey r = userPartition t \<and> noteKey r = Some key)
                             (tableRows s)))
                    \<and> \<not> deleteThrows e (rowKey r))) (tableRows s)
          \<and> memoryNotes (snd (removeNote e key s)) = memoryNotes s)
       \<and> (readsFromMemory m \<and> \<not> inheritedName key \<longrightarrow>
            fst (removeNote m key s) = (map_of (partitionNotes (userPartition t) s) key \<noteq> None)
          \<and> (nonEmptyGroups s \<longrightarrow>
                fst (removeNote m key s) = (notesUnder (userPartition t) key s \<noteq> []))
          \<and> notesUnder (userPartition t) key (snd (removeNote m key s)) = []
          \<and> partitionNotes (userPartition t) (snd (removeNote m key s))
              = AList.delete key (partitionNotes (userPartition t) s))
       \<and> (storesInMemory e1 \<and> storesInMemory e2 \<and> readsFromMemory m \<and> readsFromMemory m'
          \<and> \<not> inheritedName key \<longrightarrow>
            fst (removeNote m key (snd (stickNote e2 key text2 (snd (stickNote e1 key text1 s)))))
          \<and> fst (peelNote m' key (snd (removeNote m key
                   (snd (stickNote e2 key text2 (snd (stickNote e1 key text1 s))))))) = Inr None)
       \<and> (reachesTable d1 \<and> reachesTable d2 \<and> readsTable e \<and> readsTable e'
          \<and> (\<forall>rk. \<not> deleteThrows e rk) \<longrightarrow>
            fst (removeNote e key (snd (stickNote d2 key text2 (snd (stickNote d1 key text1 s)))))
          \<and> fst (peelNote e' key (snd (removeNote e key
                   (snd (stickNote d2 key text2 (snd (stickNote d1 key text1 s))))))) = Inr None)"
proof -
  let ?pk = "userPartition t"
  have scan: "listEntities ?pk (Some key) (tableRows s)
      = filter (\<lambda>r. partitionKey r = ?pk \<and> noteKey r = Some key) (tableRows s)"
    by (simp add: listEntities_def)
  have table: "fst (removeNote e key s) = (listEntities ?pk (Some key) (tableRows s) \<noteq> [])
      \<and> tableRows (snd (removeNote e key s))
          = deleteEach e ?pk (listEntities ?pk (Some key) (tableRows s)) (tableRows s)
      \<and> memoryNotes (snd (removeNote e key s)) = memoryNotes s"
    if "readsTable e"
    by (simp add: removeNote_in_table [OF assms that])
  have memory: "fst (removeNote m key s) = (map_of (partitionNotes ?pk s) key \<noteq> None)
      \<and> (nonEmptyGroups s \<longrightarrow> fst (removeNote m key s) = (notesUnder ?pk key s \<noteq> []))
      \<and> notesUnder ?pk key (snd (removeNote m key s)) = []
      \<and> partitionNotes ?pk (snd (removeNote m key s)) = AList.delete key (partitionNotes ?pk s)"
    if "readsFromMemory m" "\<not> inheritedName key"
    using removeNote_memory_group [OF assms that, of] entry_iff_notes [of s ?pk key]
    by simp
  show ?thesis
    using table memory
      remove_after_two_in_memory [OF assms, of key e1 e2 m m' text2 text1]
      remove_after_two_in_table [OF assms, of d1 d2 e e' key text2 text1]
    unfolding deleteEach_deleted scan
    by blast
qed

theorem removeNote_removes_group_witness:
  "fst (removeNote (healthy 9 ''q'') ''k''
         \<lparr>currentUserId = Some ''u1'', memoryNotes = [],
          tableRows =
            [\<lparr>partitionKey = ''user-u1'', rowKey = ''r1'', noteKey = Some ''k'',
              entity_text = ''a'', entity_timestamp = Some 5\<rparr>,
             \<lparr>partitionKey = ''user-u1'', rowKey = ''r2'', noteKey = Some ''other'',
              entity_text = ''b'', entity_timestamp = Some 6\<rparr>,
             \<lparr>partitionKey = ''user-u1'', rowKey = ''r3'', noteKey = Some ''k'',
              entity_text = ''c'', entity_timestamp = Some 7\<rparr>]\<rparr>)
   \<and> tableRows (snd (removeNote (healthy 9 ''q'') ''k''
         \<lparr>currentUserId = Some ''u1'', memoryNotes = [],
          tableRows =
            [\<lparr>partitionKey = ''user-u1'', rowKey = ''r1'', noteKey = Some ''k'',
              entity_text = ''a'', entity_timestamp = Some 5\<rparr>,
             \<lparr>partitionKey = ''user-u1'', rowKey = ''r2'', noteKey = Some ''other'',
              entity_text = ''b'', entity_timestamp = Some 6\<rparr>,
             \<lparr>partitionKey = ''user-u1'', rowKey = ''r3'', noteKey = Some ''k'',
              entity_text = ''c'', entity_timestamp = Some 7\<rparr>]\<rparr>))
       = [\<lparr>partitionKey = ''user-u1'', rowKey = ''r2'', noteKey = Some ''other'',
           entity_text = ''b'', entity_timestamp = Some 6\<rparr>]
   \<and> fst (removeNote (offline 7 ''q'') ''idea''
         (snd (stickNote (offline 6 ''n2'') ''idea'' ''second''
           (snd (stickNote (offline 5 ''n1'') ''idea'' ''first'' (session ''u1''))))))
   \<and> fst (peelNote (offline 8 ''q'') ''idea''
         (snd (removeNote (offline 7 ''q'') ''idea''
           (snd (stickNote (offline 6 ''n2'') ''idea'' ''second''
             (snd (stickNote (offline 5 ''n1'') ''idea'' ''first'' (session ''u1''))))))))
       = Inr None
   \<and> fst (removeNote (healthy 7 ''q'') ''idea''
         (snd (stickNote (healthy 6 ''n2'') ''idea'' ''second''
           (snd (stickNote (healthy 5 ''n1'') ''idea'' ''first'' (session ''u1''))))))
   \<and> fst (peelNote (healthy 8 ''q'') ''idea''
         (snd (removeNote (healthy 7 ''q'') ''idea''
           (snd (stickNote (healthy 6 ''n2'') ''idea'' ''second''
             (snd (stickNote (healthy 5 ''n1'') ''idea'' ''first'' (session ''u1''))))))))
       = Inr None"
proof -
  let ?d = "\<lparr>currentUserId = Some ''u1'', memoryNotes = [],
          tableRows =
            [\<lparr>partitionKey = ''user-u1'', rowKey = ''r1'', noteKey = Some ''k'',
              entity_text = ''a'', entity_timestamp = Some 5\<rparr>,
             \<lparr>partitionKey = ''user-u1'', rowKey = ''r2'', noteKey = Some ''other'',
              entity_text = ''b'', entity_timestamp = Some 6\<rparr>,
             \<lparr>partitionKey = ''user-u1'', rowKey = ''r3'', noteKey = Some ''k'',
              entity_text = ''c'', entity_timestamp = Some 7\<rparr>]\<rparr>"
  have t: "''u1'' \<noteq> []" by simp
  have d: "currentUserId ?d = Some ''u1''" and u: "currentUserId (session ''u1'') = Some ''u1''"
    by (simp_all add: session_def)
  have key: "\<not> inheritedName ''idea''"
    by (simp add: inheritedName_def object_prototype_def)
  have modes: "readsTable (healthy 9 ''q'')" "readsTable (healthy 7 ''q'')" "readsTable (healthy 8 ''q'')"
    "reachesTable (healthy 5 ''n1'')" "reachesTable (healthy 6 ''n2'')"
    "storesInMemory (offline 5 ''n1'')" "storesInMemory (offline 6 ''n2'')"
    "readsFromMemory (offline 7 ''q'')" "readsFromMemory (offline 8 ''q'')"
    "\<forall>rk. \<not> deleteThrows (healthy 7 ''q'') rk" "\<forall>rk. \<not> deleteThrows (healthy 9 ''q'') rk"
    by (simp_all add: readsTable_def reachesTable_def storesInMemory_def readsFromMemory_def
          healthy_def offline_def)
  have ids: "\<forall>r \<in> set (tableRows ?d). partitionKey r = userPartition ''u1'' \<longrightarrow> rowKey r \<noteq> ''k''"
    by simp
  from removeNote_removes_group [OF d t, of "healthy 9 ''q''" "''k''"] modes ids
  have first: "fst (removeNote (healthy 9 ''q'') ''k'' ?d)
     \<and> tableRows (snd (removeNote (healthy 9 ''q'') ''k'' ?d))
         = [\<lparr>partitionKey = ''user-u1'', rowKey = ''r2'', noteKey = Some ''other'',
             entity_text = ''b'', entity_timestamp = Some 6\<rparr>]"
    by (simp add: userPartition_def)
  from removeNote_removes_group [OF u t, of "healthy 7 ''q''" "''idea''" "offline 7 ''q''"
      "offline 5 ''n1''" "offline 6 ''n2''" "offline 8 ''q''" "''second''" "''first''"
      "healthy 5 ''n1''" "healthy 6 ''n2''" "healthy 8 ''q''"] modes key
  have second: "fst (removeNote (offline 7 ''q'') ''idea''
         (snd (stickNote (offline 6 ''n2'') ''idea'' ''second''
           (snd (stickNote (offline 5 ''n1'') ''idea'' ''first'' (session ''u1''))))))
   \<and> fst (peelNote (offline 8 ''q'') ''idea''
         (snd (removeNote (offline 7 ''q'') ''idea''
           (snd (stickNote (offline 6 ''n2'') ''idea'' ''second''
             (snd (stickNote (offline 5 ''n1'') ''idea'' ''first'' (session ''u1''))))))))
       = Inr None
   \<and> fst (removeNote (healthy 7 ''q'') ''idea''
         (snd (stickNote (healthy 6 ''n2'') ''idea'' ''second''
           (snd (stickNote (healthy 5 ''n1'') ''idea'' ''first'' (session ''u1''))))))
   \<and> fst (peelNote (healthy 8 ''q'') ''idea''
         (snd (removeNote (healthy 7 ''q'') ''idea''
           (snd (stickNote (healthy 6 ''n2'') ''idea'' ''second''
             (snd (stickNote (healthy 5 ''n1'') ''idea'' ''first'' (session ''u1''))))))))
       = Inr None"
    by blast
  from first second show ?thesis by blast
qed

section \<open>Clearing the board\<close>


lemma removeEach_answers:
  "fst (removeEach re between keys n s)
     = n + length (filter (\<lambda>success. success) (removalAnswers re between keys s))"
  by (induction keys arbitrary: n s) (simp_all split: prod.splits)

lemma length_removalAnswers: "length (removalAnswers re between keys s) = length keys"
  by (induction keys arbitrary: s) (simp_all split: prod.splits)

lemma clearNotes_answers:
  "fst (clearNotes e re between s)
     = BoardCleared (length (filter (\<lambda>success. success)
         (removalAnswers re between (fst (listNoteKeys e s)) (snd (listNoteKeys e s)))))"
proof -
  obtain keys s1 where k: "listNoteKeys e s = (keys, s1)" by (cases "listNoteKeys e s")
  obtain n s2 where r: "removeEach re between keys 0 s1 = (n, s2)"
    by (cases "removeEach re between keys 0 s1")
  from removeEach_answers [of re between keys 0 s1] r k show ?thesis
    by (simp add: clearNotes_def)
qed

lemma removeFromMemory_present:
  assumes "map_of (partitionNotes pk s) key \<noteq> None"
  shows "fst (removeFromMemory pk key s)
       \<and> partitionNotes pk (snd (removeFromMemory pk key s)) = AList.delete key (partitionNotes pk s)"
proof (cases "map_of (memoryNotes s) pk")
  case None
  with assms show ?thesis by (simp add: partitionNotes_def)
next
  case (Some u)
  with assms obtain xs where "map_of u key = Some xs" by (auto simp: partitionNotes_def)
  with Some show ?thesis
    by (simp add: removeFromMemory_def partitionNotes_def getProperty_def update_conv')
qed

lemma removeNote_memory_present:
  assumes "currentUserId s = Some t" "t \<noteq> []" "readsFromMemory e"
      and "map_of (partitionNotes (userPartition t) s) key \<noteq> None"
  shows "fst (removeNote e key s)
       \<and> partitionNotes (userPartition t) (snd (removeNote e key s))
           = AList.delete key (partitionNotes (userPartition t) s)
       \<and> currentUserId (snd (removeNote e key s)) = Some t"
proof -
  from removeNote_in_memory [OF assms(1-3), of key] obtain rows where
    r: "removeNote e key s = removeFromMemory (userPartition t) key (s\<lparr>tableRows := rows\<rparr>)"
    by blast
  from removeFromMemory_present [of "userPartition t" "s\<lparr>tableRows := rows\<rparr>" key] assms(4)
    removeFromMemory_frame [of "userPartition t" key "s\<lparr>tableRows := rows\<rparr>"] assms(1)
  show ?thesis by (simp add: r)
qed

lemma removeEach_memory:
  assumes "t \<noteq> []" "\<forall>k. readsFromMemory (re k)"
  shows "currentUserId s = Some t \<Longrightarrow> distinct keys
         \<Longrightarrow> set keys \<subseteq> fst ` set (partitionNotes (userPartition t) s)
         \<Longrightarrow> fst (removeEach re (\<lambda>k. None) keys n s) = n + length keys
           \<and> partitionNotes (userPartition t) (snd (removeEach re (\<lambda>k. None) keys n s))
               = filter (\<lambda>p. fst p \<notin> set keys) (partitionNotes (userPartition t) s)
           \<and> currentUserId (snd (removeEach re (\<lambda>k. None) keys n s)) = Some t"
proof (induction keys arbitrary: n s)
  case Nil
  then show ?case by simp
next
  case (Cons key keys)
  let ?pk = "userPartition t"
  obtain b s' where r: "removeNote (re key) key s = (b, s')" by (cases "removeNote (re key) key s")
  from Cons.prems(3) have "map_of (partitionNotes ?pk s) key \<noteq> None"
    by (simp add: map_of_eq_None_iff)
  from removeNote_memory_present [OF Cons.prems(1) assms(1) _ this, of "re key"] assms(2) r
  have s': "b" "partitionNotes ?pk s' = AList.delete key (partitionNotes ?pk s)"
    "currentUserId s' = Some t" by simp_all
  have "set (map fst (AList.delete key (partitionNotes ?pk s)))
        = set (map fst (partitionNotes ?pk s)) - {key}"
    by (simp add: delete_keys)
  then have sub: "set keys \<subseteq> fst ` set (partitionNotes ?pk s')"
    using Cons.prems(2,3) by (auto simp: s'(2))
  from Cons.prems(2) have d: "distinct keys" by simp
  from Cons.IH [OF s'(3) d sub, of "n + 1"] r s'(1)
  show ?case
    by (auto simp: s'(2) AList.delete_eq intro: filter_cong)
qed

lemma listNoteKeys_in_memory:
  assumes "currentUserId s = Some t" "t \<noteq> []" "readsFromMemory e"
  shows "listNoteKeys e s = (sort (map fst (partitionNotes (userPartition t) s)), s)"
  by (simp add: listNoteKeys_def listNotesData_in_memory [OF assms] getGroupedFromMemory_notes
        comp_def sort_key_id_if_sorted)

lemma clearNotes_in_memory:
  assumes tenant: "currentUserId s = Some t" "t \<noteq> []"
      and mem: "readsFromMemory e" "\<forall>k. readsFromMemory (re k)" "readsFromMemory e'"
      and keys: "distinct (map fst (partitionNotes (userPartition t) s))"
  shows "fst (clearNotes e re (\<lambda>k. None) s) = BoardCleared (length (partitionNotes (userPartition t) s))
       \<and> fst (listNotesData e' (snd (clearNotes e re (\<lambda>k. None) s))) = []"
proof -
  let ?pk = "userPartition t"
  let ?keys = "sort (map fst (partitionNotes ?pk s))"
  obtain n s2 where r: "removeEach re (\<lambda>k. None) ?keys 0 s = (n, s2)"
    by (cases "removeEach re (\<lambda>k. None) ?keys 0 s")
  have d: "distinct ?keys" using keys by simp
  have sub: "set ?keys \<subseteq> fst ` set (partitionNotes ?pk s)" by simp
  from removeEach_memory [OF tenant(2) mem(2) tenant(1) d sub, of 0] r
  have n: "n = length (partitionNotes ?pk s)"
    and gone: "partitionNotes ?pk s2 = []"
    and user: "currentUserId s2 = Some t"
    by (auto simp: filter_empty_conv)
  have "fst (listNotesData e' s2) = []"
    by (simp add: listNotesData_in_memory [OF user tenant(2) mem(3)] getGroupedFromMemory_notes gone)
  with n r show ?thesis
    by (simp add: clearNotes_def listNoteKeys_in_memory [OF tenant mem(1)])
qed

lemma clear_two_keys_in_memory:
  assumes tenant: "currentUserId s = Some t" "t \<noteq> []"
      and keys: "\<not> inheritedName (resolvedKey x)" "\<not> inheritedName (resolvedKey y)"
                "resolvedKey x \<noteq> resolvedKey y"
      and mem: "storesInMemory e1" "storesInMemory e2" "readsFromMemory e"
               "\<forall>k. readsFromMemory (re k)" "readsFromMemory e'"
      and empty: "partitionNotes (userPartition t) s = []"
  shows "fst (clearNotes e re (\<lambda>k. None) (snd (addNote e2 text2 y (snd (addNote e1 text1 x s)))))
           = BoardCleared 2
       \<and> fst (listNotesData e'
            (snd (clearNotes e re (\<lambda>k. None) (snd (addNote e2 text2 y (snd (addNote e1 text1 x s))))))) = []"
proof -
  let ?pk = "userPartition t" and ?x = "resolvedKey x" and ?y = "resolvedKey y"
  define s1 where "s1 = remember ?pk ?x (memorised e1 text1) s"
  define s2 where "s2 = remember ?pk ?y (memorised e2 text2) s1"
  have user: "currentUserId s1 = Some t" "currentUserId s2 = Some t"
    by (simp_all add: s1_def s2_def tenant)
  have st1: "stickNote e1 ?x text1 s = (Inr (), s1)"
    unfolding s1_def by (rule stickNote_in_memory [OF tenant mem(1) keys(1)])
  have st2: "stickNote e2 ?y text2 s1 = (Inr (), s2)"
    unfolding s2_def by (rule stickNote_in_memory [OF user(1) tenant(2) mem(2) keys(2)])
  have p2: "partitionNotes ?pk s2 = [(?x, [memorised e1 text1]), (?y, [memorised e2 text2])]"
    using keys(3)
    by (simp add: s2_def s1_def partitionNotes_remember notesUnder_remember empty notesUnder_def)
  have d: "distinct (map fst (partitionNotes ?pk s2))"
    using keys(3) by (simp add: p2)
  from clearNotes_in_memory [OF user(2) tenant(2) mem(3,4,5) d]
  show ?thesis by (simp add: addNote_stickNote st1 st2 p2)
qed

lemma removeNote_table_partition:
  assumes "currentUserId s = Some t" "t \<noteq> []" "readsTable e"
  shows "fst (removeNote e key s)
           = (filter (\<lambda>r. noteKey r = Some key) (listEntities (userPartition t) None (tableRows s)) \<noteq> [])
       \<and> listEntities (userPartition t) None (tableRows (snd (removeNote e key s)))
           = filter (\<lambda>r. \<not> (rowKey r \<in> set (map rowKey
                 (filter (\<lambda>r. noteKey r = Some key) (listEntities (userPartition t) None (tableRows s))))
                 \<and> \<not> deleteThrows e (rowKey r)))
               (listEntities (userPartition t) None (tableRows s))
       \<and> currentUserId (snd (removeNote e key s)) = Some t"
proof -
  let ?pk = "userPartition t"
  have "listEntities ?pk None
          (filter (\<lambda>r. \<not> (partitionKey r = ?pk \<and> rowKey r \<in> S \<and> \<not> deleteThrows e (rowKey r)))
             (tableRows s))
        = filter (\<lambda>r. \<not> (rowKey r \<in> S \<and> \<not> deleteThrows e (rowKey r)))
            (listEntities ?pk None (tableRows s))" for S
    by (induction "tableRows s") (auto simp: listEntities_def intro: filter_cong)
  then show ?thesis
    using assms(1)
    by (simp add: removeNote_in_table [OF assms(1-3)] deleteEach_deleted listEntities_key)
qed

lemma distinct_map_filter_member:
  assumes "distinct (map f xs)" "x \<in> set xs"
  shows "f x \<in> set (map f (filter Q xs)) \<longleftrightarrow> Q x"
  using assms by (induction xs) (auto simp: image_iff)

lemma removeNote_table_group:
  assumes "currentUserId s = Some t" "t \<noteq> []" "readsTable e"
      and "distinct (map rowKey (listEntities (userPartition t) None (tableRows s)))"
  shows "fst (removeNote e key s)
           = (\<exists>r \<in> set (listEntities (userPartition t) None (tableRows s)). noteKey r = Some key)
       \<and> listEntities (userPartition t) None (tableRows (snd (removeNote e key s)))
           = filter (\<lambda>r. \<not> (noteKey r = Some key \<and> \<not> deleteThrows e (rowKey r)))
               (listEntities (userPartition t) None (tableRows s))
       \<and> currentUserId (snd (removeNote e key s)) = Some t"
proof -
  let ?P = "listEntities (userPartition t) None (tableRows s)"
  have "filter (\<lambda>r. \<not> (rowKey r \<in> set (map rowKey (filter (\<lambda>r. noteKey r = Some key) ?P))
                        \<and> \<not> deleteThrows e (rowKey r))) ?P
        = filter (\<lambda>r. \<not> (noteKey r = Some key \<and> \<not> deleteThrows e (rowKey r))) ?P"
    using distinct_map_filter_member [OF assms(4), of _ "\<lambda>r. noteKey r = Some key"]
    by (intro filter_cong) auto
  with removeNote_table_partition [OF assms(1-3), of key] show ?thesis
    by (auto simp: filter_empty_conv)
qed

lemma removeEach_table:
  assumes "t \<noteq> []" "\<forall>k. readsTable (re k)"
  shows "currentUserId s = Some t \<Longrightarrow> distinct keys
         \<Longrightarrow> distinct (map rowKey (listEntities (userPartition t) None (tableRows s)))
         \<Longrightarrow> \<forall>k \<in> set keys. \<exists>r \<in> set (listEntities (userPartition t) None (tableRows s)). noteKey r = Some k
         \<Longrightarrow> fst (removeEach re (\<lambda>k. None) keys n s) = n + length keys
           \<and> listEntities (userPartition t) None (tableRows (snd (removeEach re (\<lambda>k. None) keys n s)))
               = filter (\<lambda>r. \<not> (\<exists>k \<in> set keys. noteKey r = Some k \<and> \<not> deleteThrows (re k) (rowKey r)))
                   (listEntities (userPartition t) None (tableRows s))
           \<and> currentUserId (snd (removeEach re (\<lambda>k. None) keys n s)) = Some t"
proof (induction keys arbitrary: n s)
  case Nil
  then show ?case by simp
next
  case (Cons key keys)
  let ?pk = "userPartition t"
  let ?P = "listEntities ?pk None (tableRows s)"
  obtain b s' where r: "removeNote (re key) key s = (b, s')" by (cases "removeNote (re key) key s")
  from assms(2) have table: "readsTable (re key)" by simp
  from removeNote_table_group [OF Cons.prems(1) assms(1) table Cons.prems(3), of key] r Cons.prems(4)
  have s': "b" "currentUserId s' = Some t"
    "listEntities ?pk None (tableRows s')
       = filter (\<lambda>r. \<not> (noteKey r = Some key \<and> \<not> deleteThrows (re key) (rowKey r))) ?P"
    by simp_all
  from Cons.prems(2) have d: "distinct keys" and fresh: "key \<notin> set keys" by simp_all
  have rows: "distinct (map rowKey (listEntities ?pk None (tableRows s')))"
    unfolding s'(3) using Cons.prems(3) by (rule distinct_map_filter)
  have still: "\<forall>k \<in> set keys. \<exists>r \<in> set (listEntities ?pk None (tableRows s')). noteKey r = Some k"
  proof
    fix k assume k: "k \<in> set keys"
    with Cons.prems(4) obtain r where r: "r \<in> set ?P" "noteKey r = Some k" by auto
    from k fresh have "k \<noteq> key" by auto
    with r show "\<exists>r \<in> set (listEntities ?pk None (tableRows s')). noteKey r = Some k"
      unfolding s'(3) by (intro bexI [of _ r]) simp_all
  qed
  from Cons.IH [OF s'(2) d rows still, of "n + 1"] r s'(1)
  show ?case
    unfolding s'(3) by (auto intro: filter_cong)
qed

lemma listNoteKeys_in_table:
  assumes "currentUserId s = Some t" "t \<noteq> []" "readsTable e"
      and "\<forall>x \<in> set (listEntities (userPartition t) None (tableRows s)). \<not> inheritedName (groupKey x)"
  shows "\<exists>keys. listNoteKeys e s = (keys, s) \<and> distinct keys
           \<and> set keys = groupKey ` set (listEntities (userPartition t) None (tableRows s))"
proof -
  let ?ents = "listEntities (userPartition t) None (tableRows s)"
  from groupEntities_succeeds [OF assms(4), of e "[]"]
  obtain g where g: "groupEntities e ?ents [] = Inr g" by blast
  from groupEntities_distinct [OF g] have d: "distinct (map fst g)" by simp
  have "k \<in> fst ` set g \<longleftrightarrow> k \<in> groupKey ` set ?ents" for k
  proof -
    have "k \<in> fst ` set g \<longleftrightarrow> map_of g k \<noteq> None" by (simp add: map_of_eq_None_iff)
    also have "\<dots> \<longleftrightarrow> filter (\<lambda>x. groupKey x = k) ?ents \<noteq> []"
      using groupEntities_lookup [OF g, of k] by simp
    also have "\<dots> \<longleftrightarrow> k \<in> groupKey ` set ?ents" by (auto simp: filter_empty_conv)
    finally show ?thesis .
  qed
  then have keys: "set (map fst g) = groupKey ` set ?ents" by auto
  have "listNoteKeys e s = (sort (map fst g), s)"
    by (simp add: listNoteKeys_def listNotesData_in_table [OF assms(1-3)] g comp_def
          sort_key_id_if_sorted)
  with d keys show ?thesis by simp
qed

lemma clearNotes_in_table:
  assumes tenant: "currentUserId s = Some t" "t \<noteq> []"
      and table: "readsTable e" "\<forall>k. readsTable (re k)"
      and rows: "distinct (map rowKey (listEntities (userPartition t) None (tableRows s)))"
      and keyed: "\<forall>r \<in> set (listEntities (userPartition t) None (tableRows s)).
                    noteKey r = Some (groupKey r) \<and> \<not> inheritedName (groupKey r)"
  shows "fst (clearNotes e re (\<lambda>k. None) s)
           = BoardCleared (length (remdups (map groupKey (listEntities (userPartition t) None (tableRows s)))))
       \<and> ((\<forall>k rk. \<not> deleteThrows (re k) rk) \<and> readsTable e'
            \<longrightarrow> fst (listNotesData e' (snd (clearNotes e re (\<lambda>k. None) s))) = [])"
proof -
  let ?pk = "userPartition t"
  let ?P = "listEntities ?pk None (tableRows s)"
  from keyed have ok: "\<forall>x \<in> set ?P. \<not> inheritedName (groupKey x)" by simp
  from listNoteKeys_in_table [OF tenant table(1) ok] obtain keys where
    k: "listNoteKeys e s = (keys, s)" "distinct keys" "set keys = groupKey ` set ?P" by blast
  obtain n s2 where r: "removeEach re (\<lambda>k. None) keys 0 s = (n, s2)"
    by (cases "removeEach re (\<lambda>k. None) keys 0 s")
  have present: "\<forall>k \<in> set keys. \<exists>r \<in> set ?P. noteKey r = Some k"
    using k(3) keyed by auto
  from removeEach_table [OF tenant(2) table(2) tenant(1) k(2) rows present, of 0] r
  have n: "n = length keys"
    and left: "listEntities ?pk None (tableRows s2)
       = filter (\<lambda>r. \<not> (\<exists>k \<in> set keys. noteKey r = Some k \<and> \<not> deleteThrows (re k) (rowKey r))) ?P"
    and user: "currentUserId s2 = Some t"
    by simp_all
  have "length keys = card (groupKey ` set ?P)"
    using k(2,3) by (metis distinct_card)
  also have "\<dots> = length (remdups (map groupKey ?P))"
    by (simp add: length_remdups_card_conv)
  finally have count: "n = length (remdups (map groupKey ?P))" using n by simp
  have "fst (listNotesData e' s2) = []"
    if clean: "\<forall>k rk. \<not> deleteThrows (re k) rk" and read: "readsTable e'"
  proof -
    have "listEntities ?pk None (tableRows s2) = []"
      unfolding left using clean keyed k(3) by (auto simp: filter_empty_conv)
    then show ?thesis
      by (simp add: listNotesData_in_table [OF user tenant(2) read])
  qed
  with count r k(1) show ?thesis by (simp add: clearNotes_def)
qed

lemma set_upsertEntity:
  "set (upsertEntity w entity rows)
     = insert (entity\<lparr>entity_timestamp := Some w\<rparr>) {x \<in> set rows. \<not> sameRow entity x}"
  by (auto simp: upsertEntity_def Let_def list_ex_iff)

lemma distinct_rowKey_placeRow:
  assumes "partitionKey r = pk" "\<forall>x \<in> set rows. \<not> sameRow r x"
      and "distinct (map rowKey (listEntities pk None rows))"
  shows "distinct (map rowKey (listEntities pk None (placeRow r rows)))"
  using assms by (induction rows) (auto simp: listEntities_def sameRow_def)

lemma distinct_rowKey_upsertEntity:
  assumes "distinct (map rowKey (listEntities pk None rows))"
  shows "distinct (map rowKey (listEntities pk None (upsertEntity w entity rows)))"
proof (cases "partitionKey entity = pk")
  case False
  with assms show ?thesis by (simp add: listEntities_upsert_other)
next
  case True
  let ?row = "entity\<lparr>entity_timestamp := Some w\<rparr>"
  show ?thesis
  proof (cases "list_ex (sameRow entity) rows")
    case False
    then have "\<forall>x \<in> set rows. \<not> sameRow ?row x" by (simp add: list_ex_iff sameRow_def)
    from distinct_rowKey_placeRow [OF _ this assms] True False show ?thesis
      by (simp add: upsertEntity_def)
  next
    case present: True
    have "map rowKey (listEntities pk None (map (\<lambda>r. if sameRow entity r then ?row else r) rows))
          = map rowKey (listEntities pk None rows)"
      using True by (induction rows) (auto simp: listEntities_def sameRow_def)
    with assms present show ?thesis by (simp add: upsertEntity_def)
  qed
qed

lemma clear_two_keys_in_table:
  assumes tenant: "currentUserId s = Some t" "t \<noteq> []"
      and keys: "\<not> inheritedName (resolvedKey x)" "\<not> inheritedName (resolvedKey y)"
                "resolvedKey x \<noteq> resolvedKey y"
      and table: "reachesTable d1" "reachesTable d2" "readsTable d" "\<forall>k. readsTable (re k)"
      and empty: "listEntities (userPartition t) None (tableRows s) = []"
      and uuids: "randomUUID d2 1 \<noteq> randomUUID d1 1"
  shows "fst (clearNotes d re (\<lambda>k. None) (snd (addNote d2 text2 y (snd (addNote d1 text1 x s)))))
           = BoardCleared 2
       \<and> ((\<forall>k rk. \<not> deleteThrows (re k) rk) \<and> readsTable d'
            \<longrightarrow> fst (listNotesData d'
                 (snd (clearNotes d re (\<lambda>k. None)
                    (snd (addNote d2 text2 y (snd (addNote d1 text1 x s))))))) = [])"
proof -
  let ?pk = "userPartition t" and ?x = "resolvedKey x" and ?y = "resolvedKey y"
  let ?r1 = "stored d1 ?pk ?x text1" and ?r2 = "stored d2 ?pk ?y text2"
  define s1 where "s1 = s\<lparr>tableRows := upsertEntity (serviceTime d1) ?r1 (tableRows s)\<rparr>"
  define s2 where "s2 = s1\<lparr>tableRows := upsertEntity (serviceTime d2) ?r2 (tableRows s1)\<rparr>"
  have user: "currentUserId s1 = Some t" "currentUserId s2 = Some t"
    by (simp_all add: s1_def s2_def tenant)
  have rows: "tableRows s1 = upsertEntity (serviceTime d1) ?r1 (tableRows s)"
             "tableRows s2 = upsertEntity (serviceTime d2) ?r2 (tableRows s1)"
    by (simp_all add: s1_def s2_def)
  have st1: "stickNote d1 ?x text1 s = (Inr (), s1)"
    unfolding s1_def by (rule stickNote_in_table [OF tenant table(1)])
  have st2: "stickNote d2 ?y text2 s1 = (Inr (), s2)"
    unfolding s2_def by (rule stickNote_in_table [OF user(1) tenant(2) table(2)])
  let ?P = "listEntities ?pk None (tableRows s2)"
  have none: "\<forall>r \<in> set (tableRows s). partitionKey r \<noteq> ?pk"
    using empty by (auto simp: listEntities_def filter_empty_conv)
  have members: "set ?P = {?r1, ?r2}"
    using none uuids
    by (auto simp: listEntities_def rows set_upsertEntity sameRow_def stored_def)
  have "distinct (map rowKey (listEntities ?pk None (tableRows s)))" by (simp add: empty)
  then have "distinct (map rowKey (listEntities ?pk None (tableRows s1)))"
    unfolding rows by (rule distinct_rowKey_upsertEntity)
  then have d: "distinct (map rowKey ?P)"
    unfolding rows(2) by (rule distinct_rowKey_upsertEntity)
  have gk: "groupKey ?r1 = ?x" "groupKey ?r2 = ?y"
    using resolvedKey_nonempty [of x] resolvedKey_nonempty [of y]
    by (cases ?x; cases ?y; simp add: groupKey_def stored_def)+
  have keyed: "\<forall>r \<in> set ?P. noteKey r = Some (groupKey r) \<and> \<not> inheritedName (groupKey r)"
    using keys gk by (auto simp: members) (simp_all add: stored_def)
  have "length (remdups (map groupKey ?P)) = card (groupKey ` set ?P)"
    by (simp add: length_remdups_card_conv)
  also have "\<dots> = 2" using keys(3) by (simp add: members gk)
  finally have two: "length (remdups (map groupKey ?P)) = 2" .
  from clearNotes_in_table [OF user(2) tenant(2) table(3,4) d keyed, of d'] two
  show ?thesis by (simp add: addNote_stickNote st1 st2)
qed

text \<open>
  Claim C5, as stated, fails: after notes added under the keys \<open>x\<close> and \<open>y\<close> the handler
  need not answer 2, and the listing afterwards need not be empty. With every
  \<^verbatim>\<open>deleteEntity\<close> rejected, \<^verbatim>\<open>removeNote\<close> still answers true for a key it found: the
  handler reports 2 and both keys are still listed. With the notes in the in-memory
  store and the handler served by the table, it reports 0 and the in-memory store still
  lists both keys. With a request that names another user handled before the second
  \<^verbatim>\<open>removeNote\<close>, that call runs in the other partition: the handler reports 1 and \<open>y\<close>
  is still listed.
\<close>

theorem clearNotes_rejected_deletes_counterexample:
  "fst (clearNotes (healthy 7 ''q'') (\<lambda>k. (healthy 8 ''q'')\<lparr>deleteThrows := (\<lambda>rk. True)\<rparr>) (\<lambda>k. None)
         (snd (addNote (healthy 6 ''n2'') ''second'' (Some ''y'')
           (snd (addNote (healthy 5 ''n1'') ''first'' (Some ''x'') (session ''u1''))))))
     = BoardCleared 2
   \<and> map fst (fst (listNotesData (healthy 9 ''q'')
         (snd (clearNotes (healthy 7 ''q'') (\<lambda>k. (healthy 8 ''q'')\<lparr>deleteThrows := (\<lambda>rk. True)\<rparr>) (\<lambda>k. None)
           (snd (addNote (healthy 6 ''n2'') ''second'' (Some ''y'')
             (snd (addNote (healthy 5 ''n1'') ''first'' (Some ''x'') (session ''u1'')))))))))
     = [''x'', ''y'']
   \<and> fst (clearNotes (healthy 7 ''q'') (\<lambda>k. healthy 8 ''q'') (\<lambda>k. None)
         (snd (addNote (offline 6 ''n2'') ''second'' (Some ''y'')
           (snd (addNote (offline 5 ''n1'') ''first'' (Some ''x'') (session ''u1''))))))
     = BoardCleared 0
   \<and> map fst (fst (listNotesData (offline 9 ''q'')
         (snd (clearNotes (healthy 7 ''q'') (\<lambda>k. healthy 8 ''q'') (\<lambda>k. None)
           (snd (addNote (offline 6 ''n2'') ''second'' (Some ''y'')
             (snd (addNote (offline 5 ''n1'') ''first'' (Some ''x'') (session ''u1'')))))))))
     = [''x'', ''y'']
   \<and> fst (clearNotes (offline 7 ''q'') (\<lambda>k. offline 8 ''q'')
           (\<lambda>k. if k = ''y'' then Some ''u2'' else None)
         (snd (addNote (offline 6 ''n2'') ''second'' (Some ''y'')
           (snd (addNote (offline 5 ''n1'') ''first'' (Some ''x'') (session ''u1''))))))
     = BoardCleared 1
   \<and> map fst (fst (listNotesData (offline 9 ''q'')
         ((snd (clearNotes (offline 7 ''q'') (\<lambda>k. offline 8 ''q'')
                  (\<lambda>k. if k = ''y'' then Some ''u2'' else None)
           (snd (addNote (offline 6 ''n2'') ''second'' (Some ''y'')
             (snd (addNote (offline 5 ''n1'') ''first'' (Some ''x'') (session ''u1'')))))))
            \<lparr>currentUserId := Some ''u1''\<rparr>)))
     = [''y'']"
  by code_simp

text \<open>
  Claim C5, amended. The \<^verbatim>\<open>clearNotes\<close> handler never fails: it calls \<^verbatim>\<open>removeNote\<close> once
  for each key \<^verbatim>\<open>listNoteKeys\<close> reported and answers with the number of those calls that
  answered true, a count of keys and not of notes. For a session bound to a tenant
  that no request rebinds while the handler runs: when the listing and every removal are
  served by the in-memory store, the count is the number of logical keys of the partition
  and a listing by that store afterwards is empty; when they are served by the table, on
  a partition whose rows have distinct row keys and each carry their logical key as
  \<open>noteKey\<close>, the count is the number of logical keys of the partition, and a listing by
  the table afterwards is empty if no deletion was rejected. So after notes added under
  exactly the keys \<open>x\<close> and \<open>y\<close>, to a partition that was empty, the count is 2 and the
  listing afterwards is empty: with every call served by the in-memory store, and with
  every call served by the table when no deletion is rejected. Nothing is said of a key
  that is a name every object inherits, nor of a key that is also the row key of a row.
\<close>

theorem clearNotes_counts_keys:
  "fst (clearNotes e re between s)
     = BoardCleared (length (filter (\<lambda>success. success)
         (removalAnswers re between (fst (listNoteKeys e s)) (snd (listNoteKeys e s)))))
   \<and> length (removalAnswers re between (fst (listNoteKeys e s)) (snd (listNoteKeys e s)))
       = length (fst (listNoteKeys e s))
   \<and> (currentUserId s = Some t \<and> t \<noteq> []
        \<and> readsFromMemory e \<and> (\<forall>k. readsFromMemory (re k)) \<and> readsFromMemory e'
        \<and> distinct (map fst (partitionNotes (userPartition t) s))
      \<longrightarrow> fst (clearNotes e re (\<lambda>k. None) s)
            = BoardCleared (length (partitionNotes (userPartition t) s))
          \<and> fst (listNotesData e' (snd (clearNotes e re (\<lambda>k. None) s))) = [])
   \<and> (currentUserId s = Some t \<and> t \<noteq> []
        \<and> readsTable d \<and> (\<forall>k. readsTable (rd k))
        \<and> distinct (map rowKey (listEntities (userPartition t) None (tableRows s)))
        \<and> (\<forall>r \<in> set (listEntities (userPartition t) None (tableRows s)).
              noteKey r = Some (groupKey r) \<and> \<not> inheritedName (groupKey r)
              \<and> (\<forall>r' \<in> set (listEntities (userPartition t) None (tableRows s)). rowKey r' \<noteq> groupKey r))
      \<longrightarrow> fst (clearNotes d rd (\<lambda>k. None) s)
            = BoardCleared (length (remdups (map groupKey
                (listEntities (userPartition t) None (tableRows s)))))
          \<and> ((\<forall>k rk. \<not> deleteThrows (rd k) rk) \<and> readsTable d'
               \<longrightarrow> fst (listNotesData d' (snd (clearNotes d rd (\<lambda>k. None) s))) = []))
   \<and> (currentUserId s0 = Some t \<and> t \<noteq> []
        \<and> \<not> inheritedName (resolvedKey x) \<and> \<not> inheritedName (resolvedKey y)
        \<and> resolvedKey x \<noteq> resolvedKey y
        \<and> storesInMemory e1 \<and> storesInMemory e2
        \<and> readsFromMemory e \<and> (\<forall>k. readsFromMemory (re k)) \<and> readsFromMemory e'
        \<and> partitionNotes (userPartition t) s0 = []
      \<longrightarrow> fst (clearNotes e re (\<lambda>k. None) (snd (addNote e2 text2 y (snd (addNote e1 text1 x s0)))))
            = BoardCleared 2
          \<and> fst (listNotesData e'
               (snd (clearNotes e re (\<lambda>k. None)
                  (snd (addNote e2 text2 y (snd (addNote e1 text1 x s0))))))) = [])
   \<and> (currentUserId s0 = Some t \<and> t \<noteq> []
        \<and> \<not> inheritedName (resolvedKey x) \<and> \<not> inheritedName (resolvedKey y)
        \<and> resolvedKey x \<noteq> resolvedKey y
        \<and> reachesTable d1 \<and> reachesTable d2 \<and> readsTable d \<and> (\<forall>k. readsTable (rd k))
        \<and> listEntities (userPartition t) None (tableRows s0) = []
        \<and> randomUUID d2 1 \<noteq> randomUUID d1 1
        \<and> randomUUID d1 1 \<notin> {resolvedKey x, resolvedKey y}
        \<and> randomUUID d2 1 \<notin> {resolvedKey x, resolvedKey y}
      \<longrightarrow> fst (clearNotes d rd (\<lambda>k. None) (snd (addNote d2 text2 y (snd (addNote d1 text1 x s0)))))
            = BoardCleared 2
          \<and> ((\<forall>k rk. \<not> deleteThrows (rd k) rk) \<and> readsTable d'
               \<longrightarrow> fst (listNotesData d'
                    (snd (clearNotes d rd (\<lambda>k. None)
                       (snd (addNote d2 text2 y (snd (addNote d1 text1 x s0))))))) = []))"
proof -
  have general: "fst (clearNotes d rd (\<lambda>k. None) s)
            = BoardCleared (length (remdups (map groupKey
                (listEntities (userPartition t) None (tableRows s)))))
          \<and> ((\<forall>k rk. \<not> deleteThrows (rd k) rk) \<and> readsTable d'
               \<longrightarrow> fst (listNotesData d' (snd (clearNotes d rd (\<lambda>k. None) s))) = [])"
    if "currentUserId s = Some t" "t \<noteq> []" "readsTable d" "\<forall>k. readsTable (rd k)"
       "distinct (map rowKey (listEntities (userPartition t) None (tableRows s)))"
       "\<forall>r \<in> set (listEntities (userPartition t) None (tableRows s)).
              noteKey r = Some (groupKey r) \<and> \<not> inheritedName (groupKey r)
              \<and> (\<forall>r' \<in> set (listEntities (userPartition t) None (tableRows s)). rowKey r' \<noteq> groupKey r)"
    using that by (intro clearNotes_in_table) simp_all
  show ?thesis
    using clearNotes_answers [of e re between s]
      length_removalAnswers [of re between "fst (listNoteKeys e s)" "snd (listNoteKeys e s)"]
      clearNotes_in_memory [of s t e re e']
      general
      clear_two_keys_in_memory [of s0 t x y e1 e2 e re e' text2 text1]
      clear_two_keys_in_table [of s0 t x y d1 d2 d rd text2 text1 d']
    by blast
qed

theorem clearNotes_counts_keys_witness:
  "fst (clearNotes (offline 7 ''q'') (\<lambda>k. offline 8 ''q'') (\<lambda>k. None)
       \<lparr>currentUserId = Some ''u1'',
        memoryNotes = [(''user-u1'',
           [(''x'', [\<lparr>note_id = ''n1'', note_text = ''a'', note_timestamp = 1\<rparr>]),
            (''y'', [\<lparr>note_id = ''n2'', note_text = ''b'', note_timestamp = 2\<rparr>,
                     \<lparr>note_id = ''n3'', note_text = ''c'', note_timestamp = 3\<rparr>])])],
        tableRows = [\<lparr>partitionKey = ''user-u1'', rowKey = ''r1'', noteKey = Some ''x'',
                      entity_text = ''a'', entity_timestamp = Some 1\<rparr>,
                     \<lparr>partitionKey = ''user-u1'', rowKey = ''r2'', noteKey = Some ''y'',
                      entity_text = ''b'', entity_timestamp = Some 2\<rparr>,
                     \<lparr>partitionKey = ''user-u1'', rowKey = ''r3'', noteKey = Some ''y'',
                      entity_text = ''c'', entity_timestamp = Some 3\<rparr>]\<rparr>)
     = BoardCleared 2
   \<and> fst (clearNotes (healthy 7 ''q'') (\<lambda>k. healthy 8 ''q'') (\<lambda>k. None)
       \<lparr>currentUserId = Some ''u1'',
        memoryNotes = [(''user-u1'',
           [(''x'', [\<lparr>note_id = ''n1'', note_text = ''a'', note_timestamp = 1\<rparr>]),
            (''y'', [\<lparr>note_id = ''n2'', note_text = ''b'', note_timestamp = 2\<rparr>,
                     \<lparr>note_id = ''n3'', note_text = ''c'', note_timestamp = 3\<rparr>])])],
        tableRows = [\<lparr>partitionKey = ''user-u1'', rowKey = ''r1'', noteKey = Some ''x'',
                      entity_text = ''a'', entity_timestamp = Some 1\<rparr>,
                     \<lparr>partitionKey = ''user-u1'', rowKey = ''r2'', noteKey = Some ''y'',
                      entity_text = ''b'', entity_timestamp = Some 2\<rparr>,
                     \<lparr>partitionKey = ''user-u1'', rowKey = ''r3'', noteKey = Some ''y'',
                      entity_text = ''c'', entity_timestamp = Some 3\<rparr>]\<rparr>)
     = BoardCleared 2
   \<and> fst (clearNotes (offline 7 ''q'') (\<lambda>k. offline 8 ''q'') (\<lambda>k. None)
         (snd (addNote (offline 6 ''n2'') ''second'' (Some ''y'')
           (snd (addNote (offline 5 ''n1'') ''first'' (Some ''x'') (session ''u1''))))))
     = BoardCleared 2
   \<and> fst (listNotesData (offline 9 ''q'')
         (snd (clearNotes (offline 7 ''q'') (\<lambda>k. offline 8 ''q'') (\<lambda>k. None)
           (snd (addNote (offline 6 ''n2'') ''second'' (Some ''y'')
             (snd (addNote (offline 5 ''n1'') ''first'' (Some ''x'') (session ''u1'')))))))) = []
   \<and> fst (clearNotes (healthy 7 ''q'') (\<lambda>k. healthy 8 ''q'') (\<lambda>k. None)
         (snd (addNote (healthy 6 ''n2'') ''second'' (Some ''y'')
           (snd (addNote (healthy 5 ''n1'') ''first'' (Some ''x'') (session ''u1''))))))
     = BoardCleared 2
   \<and> fst (listNotesData (healthy 9 ''q'')
         (snd (clearNotes (healthy 7 ''q'') (\<lambda>k. healthy 8 ''q'') (\<lambda>k. None)
           (snd (addNote (healthy 6 ''n2'') ''second'' (Some ''y'')
             (snd (addNote (healthy 5 ''n1'') ''first'' (Some ''x'') (session ''u1'')))))))) = []"
proof -
  let ?s = "\<lparr>currentUserId = Some ''u1'',
        memoryNotes = [(''user-u1'',
           [(''x'', [\<lparr>note_id = ''n1'', note_text = ''a'', note_timestamp = 1\<rparr>]),
            (''y'', [\<lparr>note_id = ''n2'', note_text = ''b'', note_timestamp = 2\<rparr>,
                     \<lparr>note_id = ''n3'', note_text = ''c'', note_timestamp = 3\<rparr>])])],
        tableRows = [\<lparr>partitionKey = ''user-u1'', rowKey = ''r1'', noteKey = Some ''x'',
                      entity_text = ''a'', entity_timestamp = Some 1\<rparr>,
                     \<lparr>partitionKey = ''user-u1'', rowKey = ''r2'', noteKey = Some ''y'',
                      entity_text = ''b'', entity_timestamp = Some 2\<rparr>,
                     \<lparr>partitionKey = ''user-u1'', rowKey = ''r3'', noteKey = Some ''y'',
                      entity_text = ''c'', entity_timestamp = Some 3\<rparr>]\<rparr>"
  have u: "currentUserId ?s = Some ''u1''" "currentUserId (session ''u1'') = Some ''u1''" "''u1'' \<noteq> []"
    by (simp_all add: session_def)
  have keys: "\<not> inheritedName (resolvedKey (Some ''x''))" "\<not> inheritedName (resolvedKey (Some ''y''))"
    "resolvedKey (Some ''x'') \<noteq> resolvedKey (Some ''y'')"
    by (simp_all add: inheritedName_def object_prototype_def resolvedKey_def)
  have mem: "storesInMemory (offline 5 ''n1'')" "storesInMemory (offline 6 ''n2'')"
    "readsFromMemory (offline 7 ''q'')" "\<forall>k::string. readsFromMemory (offline 8 ''q'')"
    "readsFromMemory (offline 9 ''q'')"
    by (simp_all add: storesInMemory_def readsFromMemory_def offline_def)
  have tab: "reachesTable (healthy 5 ''n1'')" "reachesTable (healthy 6 ''n2'')"
    "readsTable (healthy 7 ''q'')" "\<forall>k::string. readsTable (healthy 8 ''q'')"
    "\<forall>(k::string) rk. \<not> deleteThrows (healthy 8 ''q'') rk"
    "readsTable (healthy 9 ''q'')"
    by (simp_all add: reachesTable_def readsTable_def healthy_def)
  have empty: "partitionNotes (userPartition ''u1'') (session ''u1'') = []"
    "listEntities (userPartition ''u1'') None (tableRows (session ''u1'')) = []"
    by (simp_all add: partitionNotes_def session_def listEntities_def)
  have uuids: "randomUUID (healthy 6 ''n2'') 1 \<noteq> randomUUID (healthy 5 ''n1'') 1"
    "randomUUID (healthy 5 ''n1'') 1 \<notin> {resolvedKey (Some ''x''), resolvedKey (Some ''y'')}"
    "randomUUID (healthy 6 ''n2'') 1 \<notin> {resolvedKey (Some ''x''), resolvedKey (Some ''y'')}"
    by (simp_all add: healthy_def resolvedKey_def)
  have board: "distinct (map fst (partitionNotes (userPartition ''u1'') ?s))"
    "length (partitionNotes (userPartition ''u1'') ?s) = 2"
    "distinct (map rowKey (listEntities (userPartition ''u1'') None (tableRows ?s)))"
    "\<forall>r \<in> set (listEntities (userPartition ''u1'') None (tableRows ?s)).
        noteKey r = Some (groupKey r) \<and> \<not> inheritedName (groupKey r)
        \<and> (\<forall>r' \<in> set (listEntities (userPartition ''u1'') None (tableRows ?s)). rowKey r' \<noteq> groupKey r)"
    "length (remdups (map groupKey (listEntities (userPartition ''u1'') None (tableRows ?s)))) = 2"
    by (simp_all add: partitionNotes_def userPartition_def listEntities_def groupKey_def
          inheritedName_def object_prototype_def)
  from clearNotes_counts_keys
    [where e = "offline 7 ''q''" and re = "\<lambda>k. offline 8 ''q''" and between = "\<lambda>k. None"
       and s = ?s and t = "''u1''" and e' = "offline 9 ''q''"
       and d = "healthy 7 ''q''" and rd = "\<lambda>k. healthy 8 ''q''" and d' = "healthy 9 ''q''"
       and ?s0.0 = "session ''u1''" and x = "Some ''x''" and y = "Some ''y''"
       and ?e1.0 = "offline 5 ''n1''" and ?e2.0 = "offline 6 ''n2''"
       and ?text1.0 = "''first''" and ?text2.0 = "''second''"
       and ?d1.0 = "healthy 5 ''n1''" and ?d2.0 = "healthy 6 ''n2''",
     THEN conjunct2, THEN conjunct2]
    u keys mem tab empty uuids board
  show ?thesis by simp
qed

section \<open>What the addNote tool answers\<close>


lemma stickNote_succeeds:
  assumes "\<not> inheritedName key"
  shows "fst (stickNote e key text s) = Inr ()"
proof -
  obtain u s1 where g: "getOrCreateUserId e s = (u, s1)" by (cases "getOrCreateUserId e s")
  obtain pk s2 where p: "getUserPartitionKey e u s1 = (pk, s2)" by (cases "getUserPartitionKey e u s1")
  show ?thesis
    by (simp add: stickNote_resolved [OF g p] saveNoteInMemory_remember [OF assms])
qed

lemma addNote_note_added:
  assumes "\<not> inheritedName (case key of Some (c # cs) \<Rightarrow> c # cs | _ \<Rightarrow> DEFAULT_NOTE_KEY)"
  shows "fst (addNote e text key s)
         = NoteAdded (case key of Some (c # cs) \<Rightarrow> c # cs | _ \<Rightarrow> DEFAULT_NOTE_KEY) text"
proof -
  let ?k = "case key of Some (c # cs) \<Rightarrow> c # cs | _ \<Rightarrow> DEFAULT_NOTE_KEY"
  obtain r s' where st: "stickNote e ?k text s = (r, s')" by (cases "stickNote e ?k text s")
  with stickNote_succeeds [OF assms, of e "text" s] have "r = Inr ()" by simp
  with st show ?thesis by (simp add: addNote_def Let_def)
qed

lemma stickNote_inherited_key_throws:
  assumes "currentUserId s = Some t" "t \<noteq> []" "storesInMemory e" "inheritedName key"
      and "map_of (partitionNotes (userPartition t) s) key = None"
  shows "fst (stickNote e key text s) = Inl TypeError"
proof -
  let ?pk = "userPartition t"
  from assms(4) obtain len where len: "map_of object_prototype key = Some len"
    by (auto simp: inheritedName_def)
  have save: "fst (saveNoteInMemory ?pk key text ts uuid x) = Inl TypeError
          \<and> partitionNotes ?pk (snd (saveNoteInMemory ?pk key text ts uuid x)) = partitionNotes ?pk x"
    if "map_of (partitionNotes ?pk x) key = None" for ts uuid x
    using that len
    by (cases "map_of (memoryNotes x) ?pk")
       (simp_all add: saveNoteInMemory_def partitionNotes_def getProperty_def update_conv' Let_def)
  note shape = stickNote_resolved [OF getOrCreateUserId_fixed [OF assms(1,2)]
                  getUserPartitionKey_fixed [OF assms(1,2)]]
  show ?thesis
  proof (cases "client e")
    case True
    with assms(3) save [OF assms(5)] show ?thesis
      by (simp add: shape storesInMemory_def)
  next
    case False
    obtain r s3 where first: "saveNoteInMemory ?pk key text (now e) (randomUUID e 1) s = (r, s3)"
      by (cases "saveNoteInMemory ?pk key text (now e) (randomUUID e 1) s")
    from save [OF assms(5), of "now e" "randomUUID e 1"] first
    have r: "r = Inl TypeError" and s3: "map_of (partitionNotes ?pk s3) key = None"
      using assms(5) by simp_all
    from save [OF s3, of "now e" "randomUUID e 2"] False first r show ?thesis
      by (simp add: shape)
  qed
qed

text \<open>
  Claim C8 at the key \<open>constructor\<close>, the backend unreachable: the in-memory write throws
  in the \<^verbatim>\<open>else\<close> branch and again in the \<^verbatim>\<open>catch\<close>, \<^verbatim>\<open>stickNote\<close> rejects, and the handler
  answers from its error branch. No note is stored.
\<close>

theorem addNote_constructor_fails:
  "addNote (offline 5 ''n1'') ''x'' (Some ''constructor'') (session ''u1'')
     = (FailedToStickNote TypeError,
        \<lparr>currentUserId = Some ''u1'', memoryNotes = [(''user-u1'', [])], tableRows = []\<rparr>)"
  by code_simp

section \<open>Requests without a session\<close>


lemma mcpPostHandler_rejects:
  assumes "bodyMethod req \<noteq> Some ''logging/setLevel''" "bodyMethod req \<noteq> Some ''logging/getLevel''"
      and "\<not> initializeRequest req"
      and "case sessionIdHeader req of
             Some (c # cs) \<Rightarrow> map_of (transports h) (c # cs) = None \<and> \<not> inheritedName (c # cs)
           | _ \<Rightarrow> True"
  shows "fst (mcpPostHandler generated req h) = Json 400 (Some (- 32000))
       \<and> transports (snd (mcpPostHandler generated req h)) = transports h"
proof -
  define h1 where "h1 = (case requestUserId req of
                     Some (c # cs) \<Rightarrow> h\<lparr>currentUserId := Some (c # cs)\<rparr>
                   | _ \<Rightarrow> h)"
  have t: "transports h1 = transports h"
    by (simp add: h1_def split: option.splits list.splits)
  have "(case sessionIdHeader req of
           Some (c # cs) \<Rightarrow> getProperty (transports h1) (c # cs)
         | _ \<Rightarrow> Undefined) = Undefined"
    using assms(4) by (auto simp: t getProperty_own split: option.splits list.splits)
  then show ?thesis
    using assms(1-3) t
    by (simp add: mcpPostHandler_def Let_def h1_def [symmetric])
qed

lemma mcpPostHandler_no_session_created:
  assumes "\<not> initializeRequest req"
  shows "transports (snd (mcpPostHandler generated req h)) = transports h"
proof -
  define h1 where "h1 = (case requestUserId req of
                     Some (c # cs) \<Rightarrow> h\<lparr>currentUserId := Some (c # cs)\<rparr>
                   | _ \<Rightarrow> h)"
  have t: "transports h1 = transports h"
    by (simp add: h1_def split: option.splits list.splits)
  show ?thesis
    using assms t
    by (simp add: mcpPostHandler_def Let_def h1_def [symmetric] split: property.splits)
qed

text \<open>
  Claim C7 at the session id \<open>constructor\<close>: no session is registered under it, the request
  is no initialization and no logging request, and the answer is the internal error 500
  with code -32603 instead of the rejection 400 with code -32000. The session table is
  unchanged.
\<close>

theorem mcpPostHandler_constructor_session:
  "mcpPostHandler None
      \<lparr>sessionIdHeader = Some ''constructor'', bodyMethod = Some ''tools/list'',
       requestedLevel = [], initializeRequest = False, requestUserId = None\<rparr>
      idleServer
     = (Json 500 (Some (- 32603)), idleServer)"
  by code_simp

end
